theory Spec2Isabelle
  imports Complex_Main "HOL-Library.Word" "HOL-Library.Signed_Division" "HOL-Library.Multiset"
begin

section \<open>Pieces\<close>

text \<open>
  \<^verbatim>\<open>type Piece byte\<close> with the constants \<^verbatim>\<open>NONE .. QUEEN\<close> numbered 0 to 5 by
  \<^verbatim>\<open>iota\<close>. A byte can hold 250 further values, none of which names a piece.
\<close>

type_synonym Piece = "8 word"

abbreviation NONE :: Piece where "NONE \<equiv> 0"
abbreviation PAWN :: Piece where "PAWN \<equiv> 1"
abbreviation KNIGHT :: Piece where "KNIGHT \<equiv> 2"
abbreviation BISHOP :: Piece where "BISHOP \<equiv> 3"
abbreviation ROOK :: Piece where "ROOK \<equiv> 4"
abbreviation QUEEN :: Piece where "QUEEN \<equiv> 5"

text \<open>
  Failures. A Go \<^verbatim>\<open>panic\<close> unwinds every caller and ends the process unless recovered
  (nothing in the repository recovers); a returned \<^verbatim>\<open>error\<close> is a value the caller
  tests and wraps with \<^verbatim>\<open>fmt.Errorf("...: %w", err)\<close>. The message texts are dropped,
  the wrapping is kept.
\<close>

datatype panic =
    UnknownPieceScore Piece    \<comment> \<open>\<^verbatim>\<open>panic("tried to get score for unknown piece")\<close>\<close>
  | IndexOutOfRange int nat    \<comment> \<open>run-time panic: index, length\<close>

datatype error =
    UnknownPieceCoverage Piece \<comment> \<open>\<^verbatim>\<open>fmt.Errorf("attempted to get coverage for unknown piece")\<close>\<close>
  | Wrapped error              \<comment> \<open>\<^verbatim>\<open>fmt.Errorf("...: %w", err)\<close>\<close>
  | ContextClosed              \<comment> \<open>\<^verbatim>\<open>fmt.Errorf("context was closed")\<close>\<close>
  | Panicked panic             \<comment> \<open>not a returned value: the goroutine is unwinding\<close>

fun wrap :: "error \<Rightarrow> error" where
  "wrap (Panicked k) = Panicked k"
| "wrap e = Wrapped e"

definition scores :: "Piece \<rightharpoonup> int" where
  "scores = [PAWN \<mapsto> 1, KNIGHT \<mapsto> 3, BISHOP \<mapsto> 3, ROOK \<mapsto> 5, QUEEN \<mapsto> 9]"

definition GetScore :: "Piece \<Rightarrow> error + int" where
  "GetScore p =
     (case scores p of
        None \<Rightarrow> Inl (Panicked (UnknownPieceScore p))
      | Some score \<Rightarrow> Inr score)"

section \<open>Points\<close>

text \<open>
  \<^verbatim>\<open>type point int8\<close>. Points are modelled as integers, with the conversion to
  \<^verbatim>\<open>int8\<close> written out wherever the source computes in that type. Go's \<^verbatim>\<open>/\<close> and
  \<^verbatim>\<open>%\<close> truncate towards zero: \<open>sdiv\<close> and \<open>smod\<close>.
\<close>

type_synonym point = int
type_synonym pointSet = "point set"

abbreviation BOARD_SIZE :: int where "BOARD_SIZE \<equiv> 8"

definition int8 :: "int \<Rightarrow> int" where
  "int8 i = (i + 128) mod 256 - 128"

definition put :: "pointSet \<Rightarrow> point \<Rightarrow> pointSet" where
  "put ps p = insert p ps"

definition has :: "pointSet \<Rightarrow> point \<Rightarrow> bool" where
  "has ps p = (p \<in> ps)"

definition newPoint :: "int \<Rightarrow> int \<Rightarrow> point \<times> bool" where
  "newPoint x y =
     (int8 (x * BOARD_SIZE + y),
      \<not> (x < 0 \<or> x \<ge> BOARD_SIZE \<or> y < 0 \<or> y \<ge> BOARD_SIZE))"

definition newPointUnsafe :: "int \<Rightarrow> int \<Rightarrow> point" where
  "newPointUnsafe x y = int8 (x * BOARD_SIZE + y)"

definition point_x :: "point \<Rightarrow> int" where
  "point_x p = p sdiv int8 BOARD_SIZE"

definition point_y :: "point \<Rightarrow> int" where
  "point_y p = p smod int8 BOARD_SIZE"

definition point_add :: "point \<Rightarrow> int \<Rightarrow> int \<Rightarrow> point \<times> bool" where
  "point_add p x y =
     (let newX = int8 (point_x p + x);
          newY = int8 (point_y p + y)
      in (int8 (p + int8 (int8 (x * int8 BOARD_SIZE) + y)),
          \<not> (newX < 0 \<or> newX \<ge> int8 BOARD_SIZE \<or> newY < 0 \<or> newY \<ge> int8 BOARD_SIZE)))"

section \<open>Cells and boards\<close>

record cell =
  piece :: Piece
  supports :: pointSet
  supportedBy :: pointSet

text \<open>
  \<^verbatim>\<open>type Board [BOARD_SIZE][BOARD_SIZE]*cell\<close> with \<^verbatim>\<open>BOARD_SIZE = 8\<close>: eight rows of
  eight cells. Every board value of the program has this shape (\<open>wf_board\<close>). Every board
  the program works on owns its cells (\<^verbatim>\<open>copy\<close> and \<^verbatim>\<open>RebuildBoard\<close> allocate fresh
  ones, and nothing else stores a cell pointer), so a board is modelled as the value of its
  cells.

  Go panics on an index outside 0..7. The source indexes a board in two ways only: with the
  variables of a \<^verbatim>\<open>range\<close> loop over a board, and with the coordinates of a point that
  came out of \<^verbatim>\<open>add\<close> with the flag \<^verbatim>\<open>valid\<close> set, out of a coverage set, or out of
  \<^verbatim>\<open>newPoint\<close> and \<^verbatim>\<open>newPointUnsafe\<close> at loop variables. Lemmas
  \<open>point_add_valid_range\<close> and \<open>getCoverage_valid\<close> below show that such points lie on
  the board, so no index expression of the model is evaluated out of range on a board of
  this shape whose support sets came out of \<^verbatim>\<open>settleSupportGraph\<close>.
\<close>

type_synonym Board = "cell list list"

definition wf_board :: "Board \<Rightarrow> bool" where
  "wf_board b = (length b = 8 \<and> (\<forall>row \<in> set b. length row = 8))"

text \<open>\<^verbatim>\<open>b[x][y]\<close> and the assignment \<^verbatim>\<open>b[x][y] = c\<close>.\<close>

definition cellAt :: "Board \<Rightarrow> int \<Rightarrow> int \<Rightarrow> cell" where
  "cellAt b x y = b ! nat x ! nat y"

definition setCell :: "Board \<Rightarrow> int \<Rightarrow> int \<Rightarrow> cell \<Rightarrow> Board" where
  "setCell b x y c = b[nat x := (b ! nat x)[nat y := c]]"

text \<open>
  \<^verbatim>\<open>&Board{}\<close>: the source starts a new board from an array of \<^verbatim>\<open>nil\<close> pointers and
  assigns a fresh cell to every place before it reads any. The model starts from empty
  cells.
\<close>

definition newBoardArray :: Board where
  "newBoardArray = replicate 8 (replicate 8 \<lparr>piece = NONE, supports = {}, supportedBy = {}\<rparr>)"

text \<open>
  The index pairs in the order of
  \<^verbatim>\<open>for x, row := range b { for y, currCell := range row { ... } }\<close>.
\<close>

definition positions :: "(int \<times> int) list" where
  "positions = concat (map (\<lambda>x. map (\<lambda>y. (x, y)) [0..BOARD_SIZE - 1]) [0..BOARD_SIZE - 1])"

text \<open>
  A loop over a list whose body may return early with an error: the state is what the
  body has built so far.
\<close>

fun forE :: "'a list \<Rightarrow> 's \<Rightarrow> ('a \<Rightarrow> 's \<Rightarrow> error + 's) \<Rightarrow> error + 's" where
  "forE [] s body = Inr s"
| "forE (a # as) s body = (case body a s of Inl err \<Rightarrow> Inl err | Inr s' \<Rightarrow> forE as s' body)"

definition cell_copy :: "cell \<Rightarrow> cell" where
  "cell_copy c = \<lparr>piece = piece c, supports = {}, supportedBy = {}\<rparr>"

definition addSupport :: "cell \<Rightarrow> point \<Rightarrow> cell" where
  "addSupport c p = c\<lparr>supportedBy := put (supportedBy c) p\<rparr>"

definition supportOther :: "cell \<Rightarrow> point \<Rightarrow> cell" where
  "supportOther c p = c\<lparr>supports := put (supports c) p\<rparr>"

definition clearSupport :: "cell \<Rightarrow> cell" where
  "clearSupport c = c\<lparr>supports := {}, supportedBy := {}\<rparr>"

definition getCell :: "Board \<Rightarrow> point \<Rightarrow> cell" where
  "getCell b p = cellAt b (point_x p) (point_y p)"

definition isEmpty :: "Board \<Rightarrow> point \<Rightarrow> bool" where
  "isEmpty b p = (piece (getCell b p) = NONE)"

text \<open>The points of the board: 0 to 63, row-major.\<close>

definition valid_point :: "point \<Rightarrow> bool" where
  "valid_point p = (0 \<le> p \<and> p < BOARD_SIZE * BOARD_SIZE)"

section \<open>Coverage rules\<close>

definition pawnCoverage :: "point \<Rightarrow> pointSet" where
  "pawnCoverage p =
     fold (\<lambda>(x, y) result. case point_add p x y of (possiblePoint, valid) \<Rightarrow>
             if valid then put result possiblePoint else result)
       [(1, 1), (1, -1)] {}"

definition knightCoverage :: "point \<Rightarrow> pointSet" where
  "knightCoverage p =
     fold (\<lambda>(x, y) result. case point_add p x y of (possiblePoint, valid) \<Rightarrow>
             if valid then put result possiblePoint else result)
       [(1, 2), (2, 1), (-1, 2), (-2, 1), (1, -2), (2, -1), (-1, -2), (-2, -1)] {}"

text \<open>
  The eight loops of \<^verbatim>\<open>bishopCoverage\<close> and \<^verbatim>\<open>rookCoverage\<close> differ only in the
  constant offset pair handed to \<^verbatim>\<open>add\<close>. One function models them all; the offset
  pairs of the source are the values of \<open>dx\<close>, \<open>dy\<close> at the eight directions
  (\<open>p\<close> for +1, \<open>m\<close> for -1).
\<close>

datatype direction =
    Diag_pp | Diag_mp | Diag_pm | Diag_mm
  | Line_p0 | Line_0p | Line_m0 | Line_0m

fun dx :: "direction \<Rightarrow> int" where
  "dx Diag_pp = 1" | "dx Diag_mp = -1" | "dx Diag_pm = 1" | "dx Diag_mm = -1"
| "dx Line_p0 = 1" | "dx Line_0p = 0" | "dx Line_m0 = -1" | "dx Line_0m = 0"

fun dy :: "direction \<Rightarrow> int" where
  "dy Diag_pp = 1" | "dy Diag_mp = 1" | "dy Diag_pm = -1" | "dy Diag_mm = -1"
| "dy Line_p0 = 0" | "dy Line_0p = 1" | "dy Line_m0 = 0" | "dy Line_0m = -1"

subsection \<open>Arithmetic of points\<close>

lemma int8_id: "-128 \<le> i \<Longrightarrow> i < 128 \<Longrightarrow> int8 i = i"
  by (simp add: int8_def)

lemma point_xy_decomp: "8 * point_x p + point_y p = p"
  unfolding point_x_def point_y_def int8_def by (simp add: mult_sdiv_smod_eq)

lemma point_y_range: "-8 < point_y p \<and> point_y p < 8"
proof -
  have "0 \<le> \<bar>p\<bar> mod 8 \<and> \<bar>p\<bar> mod 8 < 8" by simp
  then show ?thesis
    by (auto simp: point_y_def int8_def signed_modulo_int_def sgn_if)
qed

lemma int8_cong8: "int8 (8 * a + r) = int8 (8 * int8 a + r)"
proof -
  have "(8 * ((a + 128) mod 256 - 128) + r + 128) mod 256
      = (8 * ((a + 128) mod 256) + (r + 128 - 1024)) mod 256"
    by (simp add: algebra_simps)
  also have "\<dots> = (8 * (a + 128) + (r + 128 - 1024)) mod 256"
    by (metis mod_add_left_eq mod_mult_right_eq)
  also have "\<dots> = (8 * a + r + 128) mod 256"
    by (simp add: algebra_simps)
  finally show ?thesis
    by (simp add: int8_def)
qed

text \<open>
  Whatever the origin, a point that \<^verbatim>\<open>add\<close> reports as valid lies on the board, for
  every offset pair the source uses (all within \<open>-2..2\<close>).
\<close>

lemma point_add_valid_range:
  assumes small: "\<bar>x\<bar> \<le> 2" "\<bar>y\<bar> \<le> 2" and ok: "snd (point_add p x y)"
  shows "valid_point (fst (point_add p x y))"
proof -
  define X where "X = int8 (point_x p + x)"
  define Y where "Y = point_y p + y"
  have Yid: "int8 Y = Y"
    using point_y_range[of p] small unfolding Y_def by (intro int8_id) auto
  have i8: "int8 8 = 8"
    by (simp add: int8_def)
  have off: "int8 (int8 (x * 8) + y) = 8 * x + y"
  proof -
    have "int8 (x * 8) = x * 8" using small by (intro int8_id) auto
    moreover have "int8 (x * 8 + y) = x * 8 + y" using small by (intro int8_id) auto
    ultimately show ?thesis by simp
  qed
  from ok have X: "0 \<le> X" "X < 8" and Y: "0 \<le> Y" "Y < 8"
    using Yid by (auto simp: point_add_def Let_def X_def Y_def i8)
  have "p + (8 * x + y) = 8 * (point_x p + x) + Y"
    using point_xy_decomp[of p] by (simp add: Y_def algebra_simps)
  then have "fst (point_add p x y) = int8 (8 * X + Y)"
    unfolding point_add_def Let_def fst_conv i8 off X_def using int8_cong8 by metis
  also have "\<dots> = 8 * X + Y"
    using X Y by (intro int8_id) auto
  finally show ?thesis
    using X Y by (auto simp: valid_point_def)
qed

lemma point_x_valid: "valid_point p \<Longrightarrow> point_x p = p div 8"
  by (simp add: valid_point_def point_x_def int8_def signed_divide_int_def sgn_if)

lemma point_y_valid: "valid_point p \<Longrightarrow> point_y p = p mod 8"
  by (simp add: valid_point_def point_y_def int8_def signed_modulo_int_def sgn_if)

text \<open>From a point of the board no conversion wraps: \<^verbatim>\<open>add\<close> is coordinate-wise.\<close>

lemma point_add_valid_point:
  assumes "valid_point p" "\<bar>x\<bar> \<le> 2" "\<bar>y\<bar> \<le> 2"
  shows "point_add p x y =
           (p + 8 * x + y,
            0 \<le> p div 8 + x \<and> p div 8 + x < 8 \<and> 0 \<le> p mod 8 + y \<and> p mod 8 + y < 8)"
proof -
  have r: "0 \<le> p div 8" "p div 8 < 8" "0 \<le> p mod 8" "p mod 8 < 8" "0 \<le> p" "p < 64"
    using assms(1) by (auto simp: valid_point_def)
  have i8: "int8 8 = 8" by (simp add: int8_def)
  have a: "int8 (x * 8) = x * 8" using assms by (intro int8_id) auto
  have b: "int8 (x * 8 + y) = x * 8 + y" using assms by (intro int8_id) auto
  have c: "int8 (p div 8 + x) = p div 8 + x" using assms r by (intro int8_id) auto
  have d: "int8 (p mod 8 + y) = p mod 8 + y" using assms r by (intro int8_id) auto
  have e: "int8 (p + (x * 8 + y)) = p + (x * 8 + y)" using assms r by (intro int8_id) auto
  show ?thesis
    unfolding point_add_def Let_def point_x_valid[OF assms(1)] point_y_valid[OF assms(1)]
      i8 a b c d e
    by auto
qed

lemma dxy_range: "\<bar>dx d\<bar> \<le> 1 \<and> \<bar>dy d\<bar> \<le> 1"
  by (cases d) auto

subsection \<open>Sliding pieces\<close>

text \<open>
  \<^verbatim>\<open>for next, valid = p.add(dx, dy); valid && board.isEmpty(next); next, valid = next.add(dx, dy) { result.put(next) }\<close>:
  the state of the loop is \<open>(next, valid)\<close> and \<open>result\<close>; the value is the state at
  the exit.
\<close>

function slide :: "Board \<Rightarrow> direction \<Rightarrow> point \<times> bool \<Rightarrow> pointSet \<Rightarrow> pointSet \<times> point \<times> bool" where
  "slide b d (next, valid) result =
     (if valid \<and> isEmpty b next
      then slide b d (point_add next (dx d) (dy d)) (put result next)
      else (result, next, valid))"
  by pat_completeness auto

definition slide_potential :: "direction \<Rightarrow> point \<times> bool \<Rightarrow> nat" where
  "slide_potential d nv =
     (if \<not> snd nv then 0
      else if valid_point (fst nv) then 1 + nat (100 - sgn (8 * dx d + dy d) * fst nv)
      else 300)"

termination slide
proof (relation "measure (\<lambda>(b, d, nv, result). slide_potential d nv)")
  show "wf (measure (\<lambda>(b, d, nv, result). slide_potential d nv))"
    by simp
next
  fix b :: Board and d :: direction and "next" :: point and valid :: bool
    and result :: pointSet
  assume a: "valid \<and> isEmpty b next"
  obtain n' v' where pa: "point_add next (dx d) (dy d) = (n', v')"
    by (cases "point_add next (dx d) (dy d)")
  have small: "\<bar>dx d\<bar> \<le> 2" "\<bar>dy d\<bar> \<le> 2"
    using dxy_range[of d] by auto
  show "((b, d, point_add next (dx d) (dy d), put result next), (b, d, (next, valid), result))
        \<in> measure (\<lambda>(b, d, nv, result). slide_potential d nv)"
  proof (cases v')
    case False
    then show ?thesis
      using a pa by (simp add: slide_potential_def)
  next
    case True
    then have rng: "valid_point n'"
      using point_add_valid_range[OF small, of "next"] pa by simp
    show ?thesis
    proof (cases "valid_point next")
      case False
      then show ?thesis
        using a pa True rng by (auto simp: slide_potential_def valid_point_def sgn_if)
    next
      case v: True
      have "n' = next + 8 * dx d + dy d"
        using point_add_valid_point[OF v small] pa by auto
      then show ?thesis
        using a pa True rng v
        by (cases d) (auto simp: slide_potential_def valid_point_def sgn_if)
    qed
  qed
qed

declare slide.simps [simp del]

text \<open>One ray: the loop, then \<^verbatim>\<open>if valid { result.put(next) }\<close>.\<close>

definition ray :: "Board \<Rightarrow> point \<Rightarrow> direction \<Rightarrow> pointSet \<Rightarrow> pointSet" where
  "ray b p d result =
     (case slide b d (point_add p (dx d) (dy d)) result of
        (result, next, valid) \<Rightarrow> if valid then put result next else result)"

definition bishopCoverage :: "Board \<Rightarrow> point \<Rightarrow> pointSet" where
  "bishopCoverage b p = fold (ray b p) [Diag_pp, Diag_mp, Diag_pm, Diag_mm] {}"

definition rookCoverage :: "Board \<Rightarrow> point \<Rightarrow> pointSet" where
  "rookCoverage b p = fold (ray b p) [Line_p0, Line_0p, Line_m0, Line_0m] {}"

text \<open>
  \<^verbatim>\<open>result := bishopCoverage(board, p); for newP := range rookCoverage(board, p) { result.put(newP) }\<close>:
  putting every element of one set into another is their union.
\<close>

definition queenCoverage :: "Board \<Rightarrow> point \<Rightarrow> pointSet" where
  "queenCoverage b p = bishopCoverage b p \<union> rookCoverage b p"

definition getCoverage :: "Board \<Rightarrow> point \<Rightarrow> Piece \<Rightarrow> error + pointSet" where
  "getCoverage b p pc =
     (if pc = PAWN then Inr (pawnCoverage p)
      else if pc = KNIGHT then Inr (knightCoverage p)
      else if pc = BISHOP then Inr (bishopCoverage b p)
      else if pc = ROOK then Inr (rookCoverage b p)
      else if pc = QUEEN then Inr (queenCoverage b p)
      else Inl (UnknownPieceCoverage pc))"

text \<open>
  \<^verbatim>\<open>getAllCoverage\<close> fills a map from piece to coverage, in this order. The caller
  ranges over the map, in an order Go leaves open; the model keeps the order of insertion.
\<close>

definition getAllCoverage :: "Board \<Rightarrow> point \<Rightarrow> error + (Piece \<times> pointSet) list" where
  "getAllCoverage b p =
     forE [PAWN, KNIGHT, ROOK, BISHOP, QUEEN] []
       (\<lambda>pc result. case getCoverage b p pc of
                       Inl err \<Rightarrow> Inl (wrap err)
                     | Inr coverage \<Rightarrow> Inr (result @ [(pc, coverage)]))"

section \<open>Board operations\<close>

text \<open>\<^verbatim>\<open>len(m)\<close> of a map used as a set is \<open>card\<close>; a \<^verbatim>\<open>nil\<close> map has length 0.\<close>

definition GetCoverageLevel :: "Board \<Rightarrow> int" where
  "GetCoverageLevel b =
     fold (\<lambda>(x, y) result. if card (supportedBy (cellAt b x y)) > 0 then result + 1 else result)
       positions 0"

text \<open>\<open>score_step\<close> is the body of the loop of \<^verbatim>\<open>Score\<close>.\<close>

definition score_step :: "Board \<Rightarrow> int \<times> int \<Rightarrow> int \<Rightarrow> error + int" where
  "score_step b = (\<lambda>(x, y) result.
     let currCell = cellAt b x y in
     if piece currCell \<noteq> NONE
     then (case GetScore (piece currCell) of
             Inl err \<Rightarrow> Inl (wrap err)
           | Inr score \<Rightarrow> Inr (result + score))
     else Inr result)"

definition Board_Score :: "Board \<Rightarrow> error + int" where
  "Board_Score b = forE positions 0 (score_step b)"

definition Board_copy :: "Board \<Rightarrow> Board" where
  "Board_copy b =
     fold (\<lambda>(x, y) newBoard. setCell newBoard x y (cell_copy (cellAt b x y)))
       positions newBoardArray"

text \<open>\<^verbatim>\<open>b.getCell(p).piece = pc\<close>, and \<^verbatim>\<open>b[p.x()][p.y()].piece = pc\<close>.\<close>

definition setPiece :: "Board \<Rightarrow> point \<Rightarrow> Piece \<Rightarrow> Board" where
  "setPiece b p pc = setCell b (point_x p) (point_y p) ((getCell b p)\<lparr>piece := pc\<rparr>)"

text \<open>
  \<^verbatim>\<open>for coveredPoint := range coverage { b.getCell(coveredPoint).addSupport(currPoint) }\<close>.
  The loop visits each point of the set once, in an order Go leaves open, and each visit
  touches the cell of that point only. The model visits the points of the board in
  row-major order and skips those outside \<open>coverage\<close>; a coverage set holds points of the
  board only (\<open>getCoverage_valid\<close>).
\<close>

definition addSupportAll :: "Board \<Rightarrow> pointSet \<Rightarrow> point \<Rightarrow> Board" where
  "addSupportAll b coverage currPoint =
     fold (\<lambda>(x, y) b. if newPointUnsafe x y \<in> coverage
                        then setCell b x y (addSupport (cellAt b x y) currPoint) else b)
       positions b"

text \<open>
  \<^verbatim>\<open>settleSupportGraph\<close> works in place; on an error the source leaves the board half
  settled and every caller drops it, so the model returns the error alone. The first loop
  clears every cell; \<open>settle_step\<close> is the body of the second loop.
\<close>

definition settle_step :: "int \<times> int \<Rightarrow> Board \<Rightarrow> error + Board" where
  "settle_step = (\<lambda>(x, y) b.
     let currCell = cellAt b x y in
     if piece currCell \<noteq> NONE
     then (let currPoint = newPointUnsafe x y in
           case getCoverage b currPoint (piece currCell) of
             Inl err \<Rightarrow> Inl (wrap err)
           | Inr coverage \<Rightarrow>
               Inr (addSupportAll (setCell b x y (currCell\<lparr>supports := coverage\<rparr>))
                      coverage currPoint))
     else Inr b)"

definition settleSupportGraph :: "Board \<Rightarrow> error + Board" where
  "settleSupportGraph b = forE positions (map (map clearSupport) b) settle_step"

section \<open>Compact states\<close>

text \<open>
  \<^verbatim>\<open>float32\<close> values, as far as the program looks at them: it compares them with
  \<^verbatim>\<open>==\<close> (as part of a map key) and with \<^verbatim>\<open><\<close>. Not-a-number is unequal to everything,
  itself included, and neither below nor above anything. The two zeros are equal under
  \<^verbatim>\<open>==\<close> and are one value here.
\<close>

datatype float32 = F32_NaN | F32_NegInf | F32 rat | F32_PosInf

fun f32_eq :: "float32 \<Rightarrow> float32 \<Rightarrow> bool" where
  "f32_eq F32_NaN _ = False"
| "f32_eq _ F32_NaN = False"
| "f32_eq a b = (a = b)"

fun f32_less :: "float32 \<Rightarrow> float32 \<Rightarrow> bool" where
  "f32_less F32_NaN _ = False"
| "f32_less _ F32_NaN = False"
| "f32_less _ F32_NegInf = False"
| "f32_less F32_NegInf _ = True"
| "f32_less F32_PosInf _ = False"
| "f32_less _ F32_PosInf = True"
| "f32_less (F32 a) (F32 b) = (a < b)"

text \<open>
  \<^verbatim>\<open>MinimalBoard\<close>: the occupancy \<^verbatim>\<open>[BOARD_SIZE * BOARD_SIZE]Piece\<close>, an array of 64
  pieces, and four scalars.
\<close>

record MinimalBoard =
  board :: "Piece list"
  Heuristic :: float32
  IsSolved :: bool
  Score :: int
  Coverage :: int

text \<open>
  \<^verbatim>\<open>MinimalBoard\<close> is the key type of \<^verbatim>\<open>MinimalBoardSet\<close>. Go compares struct keys field
  by field with \<^verbatim>\<open>==\<close>.
\<close>

definition MinimalBoard_eq :: "MinimalBoard \<Rightarrow> MinimalBoard \<Rightarrow> bool" where
  "MinimalBoard_eq m n =
     (board m = board n \<and> f32_eq (Heuristic m) (Heuristic n) \<and> IsSolved m = IsSolved n \<and>
      Score m = Score n \<and> Coverage m = Coverage n)"

text \<open>
  \<^verbatim>\<open>type MinimalBoardSet map[MinimalBoard]struct{}\<close>: the keys held, none equal to
  another. A key that is unequal to itself is never found again, and each \<^verbatim>\<open>Put\<close> of it
  adds an entry.
\<close>

type_synonym MinimalBoardSet = "MinimalBoard list"

definition Contains :: "MinimalBoardSet \<Rightarrow> MinimalBoard \<Rightarrow> bool" where
  "Contains m k = (\<exists>e \<in> set m. MinimalBoard_eq e k)"

definition Put :: "MinimalBoardSet \<Rightarrow> MinimalBoard \<Rightarrow> MinimalBoardSet" where
  "Put m k = (if Contains m k then m else m @ [k])"

definition zeroMinimalBoard :: MinimalBoard where
  "zeroMinimalBoard =
     \<lparr>board = replicate 64 NONE, Heuristic = F32 0, IsSolved = False, Score = 0,
      Coverage = 0\<rparr>"

definition getMinimalBoard :: "(Board \<Rightarrow> error + float32) \<Rightarrow> Board \<Rightarrow> error + MinimalBoard" where
  "getMinimalBoard heuristic b =
     (case heuristic b of
        Inl err \<Rightarrow> Inl (wrap err)
      | Inr heuristicScore \<Rightarrow>
          (case Board_Score b of
             Inl err \<Rightarrow> Inl (wrap err)
           | Inr score \<Rightarrow>
               Inr (fold (\<lambda>(x, y) result.
                            result\<lparr>board := (board result)
                                      [nat (x * BOARD_SIZE + y) := piece (cellAt b x y)]\<rparr>)
                      positions
                      (zeroMinimalBoard\<lparr>Heuristic := heuristicScore,
                         IsSolved := (GetCoverageLevel b = BOARD_SIZE * BOARD_SIZE),
                         Score := score,
                         Coverage := GetCoverageLevel b\<rparr>))))"

text \<open>
  \<^verbatim>\<open>RebuildBoard\<close>: \<^verbatim>\<open>board[i/BOARD_SIZE][i%BOARD_SIZE] = &cell{piece: piece}\<close> for the 64
  indices, then \<^verbatim>\<open>settleSupportGraph\<close>.
\<close>

definition RebuildBoard :: "MinimalBoard \<Rightarrow> error + Board" where
  "RebuildBoard m =
     (let bd = fold (\<lambda>i bd. setCell bd (i sdiv BOARD_SIZE) (i smod BOARD_SIZE)
                               \<lparr>piece = board m ! nat i, supports = {}, supportedBy = {}\<rparr>)
                 [0..BOARD_SIZE * BOARD_SIZE - 1] newBoardArray
      in case settleSupportGraph bd of
           Inl err \<Rightarrow> Inl (wrap err)
         | Inr bd \<Rightarrow> Inr bd)"

section \<open>Reduction\<close>

subsection \<open>Shape and occupancy are kept by the board operations\<close>

lemma set_positions: "set positions = {(x, y). 0 \<le> x \<and> x < 8 \<and> 0 \<le> y \<and> y < 8}"
proof -
  have "(a, b) \<in> Pair a ` {0..7}" if "0 \<le> b" "b < 8" for a b :: int
    using that by auto
  then show ?thesis
    by (auto simp: positions_def) force
qed

lemma distinct_positions: "distinct positions"
  unfolding positions_def
  by (rule distinct_concat) (auto simp: distinct_map inj_on_def)

lemma wf_newBoardArray: "wf_board newBoardArray"
  by (simp add: wf_board_def newBoardArray_def)

lemma wf_setCell: "wf_board b \<Longrightarrow> wf_board (setCell b x y c)"
proof -
  assume w: "wf_board b"
  show ?thesis
  proof (cases "nat x < length b")
    case True
    then have "length ((b ! nat x)[nat y := c]) = 8"
      using w by (simp add: wf_board_def)
    then show ?thesis
      using w set_update_subset_insert[of b "nat x" "(b ! nat x)[nat y := c]"]
      by (auto simp: wf_board_def setCell_def)
  next
    case False
    then have "b[nat x := (b ! nat x)[nat y := c]] = b" by (intro list_update_beyond) simp
    then show ?thesis using w by (simp add: setCell_def)
  qed
qed

lemma cellAt_setCell:
  assumes "wf_board b" "(x, y) \<in> set positions" "(x', y') \<in> set positions"
  shows "cellAt (setCell b x y c) x' y' = (if x' = x \<and> y' = y then c else cellAt b x' y')"
proof -
  have r: "nat x < 8" "nat y < 8" "nat x' < 8" "nat y' < 8" "0 \<le> x" "0 \<le> y" "0 \<le> x'" "0 \<le> y'"
    using assms(2,3) by (auto simp: set_positions)
  have l: "length b = 8" "length (b ! nat x) = 8"
    using assms(1) r by (auto simp: wf_board_def)
  show ?thesis
    using r l by (auto simp: cellAt_def setCell_def nth_list_update)
qed

text \<open>A loop that assigns to the places of a list of positions, each from a fixed source.\<close>

lemma fold_setCell:
  assumes "wf_board nb" "set ps \<subseteq> set positions" "(x, y) \<in> set positions"
  shows "wf_board (fold (\<lambda>(x, y) nb. setCell nb x y (f x y)) ps nb)
       \<and> cellAt (fold (\<lambda>(x, y) nb. setCell nb x y (f x y)) ps nb) x y
           = (if (x, y) \<in> set ps then f x y else cellAt nb x y)"
  using assms(1,2)
proof (induction ps arbitrary: nb)
  case Nil
  then show ?case by simp
next
  case (Cons a ps)
  obtain u v where a: "a = (u, v)" by (cases a)
  have w: "wf_board (setCell nb u v (f u v))" using Cons.prems wf_setCell by simp
  have uv: "(u, v) \<in> set positions" using Cons.prems a by simp
  show ?case
    using Cons.IH[OF w] Cons.prems(2) cellAt_setCell[OF Cons.prems(1) uv assms(3)]
    by (auto simp: a)
qed

lemma Board_copy_wf: "wf_board (Board_copy b)"
proof -
  have "(0, 0) \<in> set positions" by (simp add: set_positions)
  from fold_setCell[OF wf_newBoardArray subset_refl this] show ?thesis
    by (simp add: Board_copy_def)
qed

lemma cellAt_Board_copy:
  "(x, y) \<in> set positions \<Longrightarrow> cellAt (Board_copy b) x y = cell_copy (cellAt b x y)"
  using fold_setCell[OF wf_newBoardArray subset_refl, of x y "\<lambda>x y. cell_copy (cellAt b x y)"]
  by (simp add: Board_copy_def)


lemma fold_updCell:
  assumes "wf_board b" "set ps \<subseteq> set positions" "distinct ps" "(x, y) \<in> set positions"
  shows "wf_board (fold (\<lambda>(x, y) b. if c x y then setCell b x y (g (cellAt b x y)) else b) ps b)
       \<and> cellAt (fold (\<lambda>(x, y) b. if c x y then setCell b x y (g (cellAt b x y)) else b) ps b) x y
           = (if (x, y) \<in> set ps \<and> c x y then g (cellAt b x y) else cellAt b x y)"
  using assms(1,2,3)
proof (induction ps arbitrary: b)
  case Nil
  then show ?case by simp
next
  case (Cons a ps)
  obtain u v where a: "a = (u, v)" by (cases a)
  have uv: "(u, v) \<in> set positions" using Cons.prems a by simp
  define b1 where "b1 = (if c u v then setCell b u v (g (cellAt b u v)) else b)"
  have w: "wf_board b1" using Cons.prems wf_setCell by (simp add: b1_def)
  have ps: "set ps \<subseteq> set positions" "distinct ps" "(u, v) \<notin> set ps"
    using Cons.prems a by auto
  have c1: "cellAt b1 x y = (if (x, y) = (u, v) \<and> c u v then g (cellAt b u v) else cellAt b x y)"
    using cellAt_setCell[OF Cons.prems(1) uv assms(4)] by (auto simp: b1_def)
  show ?case
    using Cons.IH[OF w ps(1,2)] ps(3) c1 by (auto simp: a b1_def[symmetric])
qed

lemma addSupportAll_wf: "wf_board b \<Longrightarrow> wf_board (addSupportAll b cov p)"
  using fold_updCell[OF _ subset_refl distinct_positions, of b 0 0
      "\<lambda>x y. newPointUnsafe x y \<in> cov" "\<lambda>c. addSupport c p"]
  by (simp add: addSupportAll_def set_positions)

lemma cellAt_addSupportAll:
  "wf_board b \<Longrightarrow> (x, y) \<in> set positions \<Longrightarrow>
   cellAt (addSupportAll b cov p) x y
     = (if newPointUnsafe x y \<in> cov then addSupport (cellAt b x y) p else cellAt b x y)"
  using fold_updCell[OF _ subset_refl distinct_positions, of b x y
      "\<lambda>x y. newPointUnsafe x y \<in> cov" "\<lambda>c. addSupport c p"]
  by (simp add: addSupportAll_def)

lemma wf_clear: "wf_board b \<Longrightarrow> wf_board (map (map clearSupport) b)"
  by (auto simp: wf_board_def)

lemma cellAt_clear:
  "wf_board b \<Longrightarrow> (x, y) \<in> set positions \<Longrightarrow>
   cellAt (map (map clearSupport) b) x y = clearSupport (cellAt b x y)"
  by (auto simp: wf_board_def cellAt_def set_positions)

lemma settle_step_keeps:
  assumes "settle_step (u, v) b = Inr b'" "wf_board b" "(u, v) \<in> set positions"
    "(x, y) \<in> set positions"
  shows "wf_board b'" "piece (cellAt b' x y) = piece (cellAt b x y)"
proof -
  have w: "wf_board (setCell b u v c)" for c using assms(2) wf_setCell by simp
  show "wf_board b'"
    using assms(1) assms(2) w addSupportAll_wf
    by (auto simp: settle_step_def Let_def split: if_splits sum.splits)
  show "piece (cellAt b' x y) = piece (cellAt b x y)"
    using assms(1) cellAt_addSupportAll[OF w assms(4)] cellAt_setCell[OF assms(2,3,4)]
    by (auto simp: settle_step_def Let_def addSupport_def split: if_splits sum.splits)
qed

lemma forE_settle_keeps:
  assumes "forE ps b settle_step = Inr b'" "wf_board b" "set ps \<subseteq> set positions"
    "(x, y) \<in> set positions"
  shows "wf_board b' \<and> piece (cellAt b' x y) = piece (cellAt b x y)"
  using assms(1,2,3)
proof (induction ps arbitrary: b)
  case Nil
  then show ?case by simp
next
  case (Cons a ps)
  obtain u v where a: "a = (u, v)" by (cases a)
  from Cons.prems(1) obtain b1 where s: "settle_step (u, v) b = Inr b1"
    and r: "forE ps b1 settle_step = Inr b'"
    by (auto simp: a split: sum.splits)
  have uv: "(u, v) \<in> set positions" using Cons.prems(3) a by simp
  show ?case
    using Cons.IH[OF r settle_step_keeps(1)[OF s Cons.prems(2) uv assms(4)]]
      settle_step_keeps(2)[OF s Cons.prems(2) uv assms(4)] Cons.prems(3)
    by simp
qed

lemma settle_keeps:
  assumes "settleSupportGraph b = Inr b'" "wf_board b" "(x, y) \<in> set positions"
  shows "wf_board b'" "piece (cellAt b' x y) = piece (cellAt b x y)"
  using forE_settle_keeps[OF assms(1)[unfolded settleSupportGraph_def] wf_clear[OF assms(2)]
      subset_refl assms(3)] cellAt_clear[OF assms(2,3)]
  by (simp_all add: clearSupport_def)



subsection \<open>\<^verbatim>\<open>reduce\<close>\<close>

text \<open>
  The inner loop of \<^verbatim>\<open>reduce\<close> leaves a piece alone (\<^verbatim>\<open>continue cellLoop\<close>) as soon as
  one of the cells it supports has a \<^verbatim>\<open>supportedBy\<close> of length 1.
\<close>

lemma forE_cong [fundef_cong]:
  assumes "xs = ys" "s = t" "\<And>a u. a \<in> set ys \<Longrightarrow> f a u = g a u"
  shows "forE xs s f = forE ys t g"
  unfolding assms(1,2) using assms(3)
  by (induction ys arbitrary: t) (auto split: sum.splits)

text \<open>The number of pieces on a board: what decreases along the recursion.\<close>

definition pieceCount :: "Board \<Rightarrow> nat" where
  "pieceCount b = length (filter (\<lambda>(x, y). piece (cellAt b x y) \<noteq> NONE) positions)"

definition contributes :: "Board \<Rightarrow> cell \<Rightarrow> bool" where
  "contributes b currCell =
     (\<exists>currPoint \<in> supports currCell. card (supportedBy (getCell b currPoint)) = 1)"

function reduce :: "Board \<Rightarrow> error + Board list" where
  "reduce b =
     (case forE positions []
             (\<lambda>(x, y) result.
                let currCell = cellAt b x y in
                if piece currCell = NONE then Inr result
                else if contributes b currCell then Inr result
                else (case settleSupportGraph (setPiece (Board_copy b) (newPointUnsafe x y) NONE) of
                        Inl err \<Rightarrow> Inl (wrap err)
                      | Inr newBoard \<Rightarrow>
                          (case reduce newBoard of
                             Inl err \<Rightarrow> Inl (wrap err)
                           | Inr reduceResult \<Rightarrow> Inr (result @ reduceResult))))
      of Inl err \<Rightarrow> Inl err
       | Inr result \<Rightarrow> Inr (if result = [] then [b] else result))"
  by pat_completeness auto

lemma newPointUnsafe_coords:
  assumes "(x, y) \<in> set positions"
  shows "newPointUnsafe x y = 8 * x + y" "valid_point (newPointUnsafe x y)"
    "point_x (newPointUnsafe x y) = x" "point_y (newPointUnsafe x y) = y"
proof -
  have r: "0 \<le> x" "x < 8" "0 \<le> y" "y < 8" using assms by (auto simp: set_positions)
  have "int8 (x * 8 + y) = x * 8 + y"
    using r by (intro int8_id) auto
  then show e: "newPointUnsafe x y = 8 * x + y"
    by (simp add: newPointUnsafe_def)
  show v: "valid_point (newPointUnsafe x y)"
    unfolding e valid_point_def using r by auto
  show "point_x (newPointUnsafe x y) = x" "point_y (newPointUnsafe x y) = y"
    unfolding point_x_valid[OF v] point_y_valid[OF v] unfolding e using r by auto
qed

lemma pieceCount_less:
  assumes "\<And>x y. (x, y) \<in> set positions \<Longrightarrow> piece (cellAt b' x y) \<noteq> NONE
              \<Longrightarrow> piece (cellAt b x y) \<noteq> NONE"
    and "(u, v) \<in> set positions" "piece (cellAt b u v) \<noteq> NONE" "piece (cellAt b' u v) = NONE"
  shows "pieceCount b' < pieceCount b"
proof -
  let ?P = "\<lambda>b. {(x, y). piece (cellAt b x y) \<noteq> NONE} \<inter> set positions"
  have "?P b' \<subseteq> ?P b" "(u, v) \<in> ?P b" "(u, v) \<notin> ?P b'"
    using assms by auto
  then have "?P b' \<subset> ?P b" by blast
  then have "card (?P b') < card (?P b)"
    by (intro psubset_card_mono) auto
  then show ?thesis
    by (simp add: pieceCount_def distinct_length_filter[OF distinct_positions] case_prod_beta')
qed

termination reduce
proof (relation "measure pieceCount")
  show "wf (measure pieceCount)" by simp
next
  fix b :: Board and xy :: "int \<times> int" and result :: "Board list" and x y :: int
    and currCell :: cell and newBoard :: Board
  assume xy: "xy \<in> set positions" "(x, y) = xy" and cc: "currCell = cellAt b x y"
    and pc: "piece currCell \<noteq> NONE"
    and st: "settleSupportGraph (setPiece (Board_copy b) (newPointUnsafe x y) NONE) = Inr newBoard"
  have pos: "(x, y) \<in> set positions" using xy by simp
  let ?c = "Board_copy b"
  have sp: "setPiece ?c (newPointUnsafe x y) NONE = setCell ?c x y ((cellAt ?c x y)\<lparr>piece := NONE\<rparr>)"
    unfolding setPiece_def getCell_def newPointUnsafe_coords(3,4)[OF pos] ..
  have w: "wf_board (setPiece ?c (newPointUnsafe x y) NONE)"
    unfolding sp by (intro wf_setCell Board_copy_wf)
  have pieces: "piece (cellAt newBoard x' y')
       = (if (x', y') = (x, y) then NONE else piece (cellAt b x' y'))"
    if "(x', y') \<in> set positions" for x' y'
    using settle_keeps(2)[OF st w that] cellAt_setCell[OF Board_copy_wf pos that]
      cellAt_Board_copy[OF that]
    by (auto simp: sp cell_copy_def)
  have "pieceCount newBoard < pieceCount b"
    by (rule pieceCount_less[OF _ pos]) (use pieces pos cc pc in \<open>auto split: if_splits\<close>)
  then show "(newBoard, b) \<in> measure pieceCount" by simp
qed

declare reduce.simps [simp del]

section \<open>Successor generation\<close>

text \<open>
  The inner loop of \<^verbatim>\<open>ProposeBoards\<close> sets \<^verbatim>\<open>coveredNew\<close> as soon as one point of the
  coverage has an empty \<^verbatim>\<open>supportedBy\<close>.
\<close>

definition coversNew :: "Board \<Rightarrow> pointSet \<Rightarrow> bool" where
  "coversNew b coverage =
     (\<exists>currThreatenedPoint \<in> coverage.
        card (supportedBy (getCell b currThreatenedPoint)) = 0)"

definition ProposeBoards :: "(Board \<Rightarrow> error + float32) \<Rightarrow> Board \<Rightarrow> error + MinimalBoardSet" where
  "ProposeBoards heuristic b =
     forE positions []
       (\<lambda>(x, y) result.
          if piece (cellAt b x y) \<noteq> NONE then Inr result
          else (case newPoint x y of (currCellPoint, _) \<Rightarrow>
                 (case getAllCoverage b currCellPoint of
                    Inl err \<Rightarrow> Inl (wrap err)
                  | Inr coverages \<Rightarrow>
                      forE coverages result
                        (\<lambda>(pc, coverage) result.
                           if coversNew b coverage
                           then (case settleSupportGraph
                                        (setPiece (Board_copy b) currCellPoint pc) of
                                   Inl err \<Rightarrow> Inl (wrap err)
                                 | Inr newBoard \<Rightarrow>
                                     (case reduce newBoard of
                                        Inl err \<Rightarrow> Inl (wrap err)
                                      | Inr reducedBoards \<Rightarrow>
                                          forE reducedBoards result
                                            (\<lambda>reducedBoard result.
                                               case getMinimalBoard heuristic reducedBoard of
                                                 Inl err \<Rightarrow> Inl (wrap err)
                                               | Inr minimalBoard \<Rightarrow>
                                                   Inr (Put result minimalBoard))))
                           else Inr result))))"

section \<open>The search: heuristic, worker and orchestrator\<close>

text \<open>
  \<^verbatim>\<open>(coverage / float32(score)) + coverage\<close> in \<^verbatim>\<open>float32\<close>. Both operands of the
  division are conversions of integers, so the divisor is a number, never negative, and a
  zero divisor is the positive zero: the quotient is then not-a-number for a zero dividend
  and infinite otherwise. The rounding of a quotient and of a sum to \<^verbatim>\<open>float32\<close> is
  the parameter \<open>rnd\<close>; nothing below depends on it.
\<close>

definition heuristic :: "(rat \<Rightarrow> rat) \<Rightarrow> Board \<Rightarrow> error + float32" where
  "heuristic rnd b =
     (case Board_Score b of
        Inl err \<Rightarrow> Inl (wrap err)
      | Inr score \<Rightarrow>
          (let coverage = of_int (GetCoverageLevel b) :: rat in
           Inr (if score = 0
                then (if coverage = 0 then F32_NaN
                      else if coverage > 0 then F32_PosInf else F32_NegInf)
                else F32 (rnd (rnd (coverage / of_int score) + coverage)))))"

text \<open>
  The state the goroutines share: the package variables of \<^verbatim>\<open>main\<close>, the two buffered
  channels (their contents, oldest first), what went to the drawing channel, and the boards
  that workers have taken from \<^verbatim>\<open>workQueue\<close> and are expanding.
\<close>

record state =
  edgeSet :: "MinimalBoard list"
  seenBoards :: MinimalBoardSet
  currBestScore :: int
  outstandingJobs :: int
  processed :: int
  duplicates :: int
  scoreIsDirty :: bool
  workQueue :: "MinimalBoard list"
  newBoardQueue :: "MinimalBoard list"
  drawingQueue :: "MinimalBoard list"
  expanding :: "MinimalBoard list"

definition int32 :: "int \<Rightarrow> int" where
  "int32 i = (i + 2 ^ 31) mod 2 ^ 32 - 2 ^ 31"

text \<open>\<^verbatim>\<open>run\<close>, up to the start of the goroutines.\<close>

definition initial_state :: state where
  "initial_state =
     \<lparr>edgeSet = [zeroMinimalBoard], seenBoards = Put [] zeroMinimalBoard, currBestScore = 28,
      outstandingJobs = 0, processed = 0, duplicates = 0, scoreIsDirty = False,
      workQueue = [], newBoardQueue = [], drawingQueue = [], expanding = []\<rparr>"

subsection \<open>The worker\<close>

text \<open>
  The function literal that \<^verbatim>\<open>makeWorker\<close> runs on a board \<open>b\<close> taken from
  \<^verbatim>\<open>workQueue\<close>. It starts with \<^verbatim>\<open>defer outstandingJobs.Add(-1)\<close>: the deferred call
  runs when the function returns, on every path, also while a panic unwinds. Its last
  statements are \<^verbatim>\<open>outstandingJobs.Add(-1); return nil\<close>.

  The boards are sent in the order of the set's iteration, which Go leaves open; the bound
  is loaded anew for each board (\<open>best i\<close> at the \<open>i\<close>-th); \<open>cancel = Some n\<close> says that the
  context is done when the \<open>n\<close>-th send is up. The value is the counter, the boards sent,
  and the error returned, if any.
\<close>

fun send_loop ::
  "(nat \<Rightarrow> int) \<Rightarrow> nat option \<Rightarrow> nat \<Rightarrow> MinimalBoard list \<Rightarrow> MinimalBoard list
     \<Rightarrow> MinimalBoard list \<times> error option" where
  "send_loop best cancel i [] sent = (sent, None)"
| "send_loop best cancel i (proposedBoard # rest) sent =
     (if Score proposedBoard \<le> best i
      then (if cancel = Some (length sent) then (sent, Some ContextClosed)
            else send_loop best cancel (Suc i) rest (sent @ [proposedBoard]))
      else send_loop best cancel (Suc i) rest sent)"

definition worker_job ::
  "(rat \<Rightarrow> rat) \<Rightarrow> (nat \<Rightarrow> int) \<Rightarrow> nat option \<Rightarrow> int \<Rightarrow> MinimalBoard
     \<Rightarrow> int \<times> MinimalBoard list \<times> error option" where
  "worker_job rnd best cancel jobs b =
     (case RebuildBoard b of
        Inl err \<Rightarrow> (jobs - 1, [], Some err)
      | Inr bd \<Rightarrow>
          (case ProposeBoards (heuristic rnd) bd of
             Inl err \<Rightarrow> (jobs - 1, [], Some (wrap err))
           | Inr proposedBoards \<Rightarrow>
               (case send_loop best cancel 0 proposedBoards [] of
                  (sent, Some err) \<Rightarrow> (jobs - 1, sent, Some err)
                | (sent, None) \<Rightarrow> (jobs - 1 - 1, sent, None))))"

text \<open>
  A worker receives a board from \<^verbatim>\<open>workQueue\<close>; later the job of one of the workers
  ends (on the \<open>i\<close>-th of the boards being expanded), the boards it sent are in
  \<^verbatim>\<open>newBoardQueue\<close> and the counter is what the job left. The model lets a whole job
  happen at once, with the bound it finds then.
\<close>

definition worker_take :: "state \<Rightarrow> state option" where
  "worker_take s =
     (case workQueue s of
        [] \<Rightarrow> None
      | b # rest \<Rightarrow> Some (s\<lparr>workQueue := rest, expanding := expanding s @ [b]\<rparr>))"

definition worker_finish :: "(rat \<Rightarrow> rat) \<Rightarrow> nat option \<Rightarrow> nat \<Rightarrow> state \<Rightarrow> state option" where
  "worker_finish rnd cancel i s =
     (if i < length (expanding s)
      then (case worker_job rnd (\<lambda>n. currBestScore s) cancel (outstandingJobs s)
                   (expanding s ! i) of
              (jobs, sent, err) \<Rightarrow>
                Some (s\<lparr>expanding := take i (expanding s) @ drop (Suc i) (expanding s),
                        outstandingJobs := jobs,
                        newBoardQueue := newBoardQueue s @ sent\<rparr>))
      else None)"

subsection \<open>The orchestrator\<close>

text \<open>
  The prune loop
  \<^verbatim>\<open>for edgeSet[tailIndex].Score > int(currBestScore.Load()) { edgeSet = edgeSet[:tailIndex]; tailIndex-- }\<close>.
  The index expression panics when \<^verbatim>\<open>tailIndex\<close> is not an index of the slice.
\<close>

function prune_loop :: "int \<Rightarrow> MinimalBoard list \<Rightarrow> int \<Rightarrow> error + MinimalBoard list \<times> int" where
  "prune_loop best es tailIndex =
     (if tailIndex < 0 \<or> tailIndex \<ge> int (length es)
      then Inl (Panicked (IndexOutOfRange tailIndex (length es)))
      else if Score (es ! nat tailIndex) > best
      then prune_loop best (take (nat tailIndex) es) (tailIndex - 1)
      else Inr (es, tailIndex))"
  by pat_completeness auto

termination prune_loop
  by (relation "measure (\<lambda>(best, es, tailIndex). nat (tailIndex + 1))") auto

declare prune_loop.simps [simp del]

text \<open>
  The first part of the orchestrator's loop body: prune, then try to hand the tail of the
  edge set to a worker. The send succeeds when \<^verbatim>\<open>workQueue\<close> has room
  (\<open>workQueueSize\<close> is its capacity), and otherwise the \<^verbatim>\<open>default\<close> branch moves on. The
  drawing channel is unbuffered: \<open>drawerReady\<close> says whether the drawer is waiting on it.
\<close>

definition dispatch :: "nat \<Rightarrow> bool \<Rightarrow> state \<Rightarrow> error + state" where
  "dispatch workQueueSize drawerReady s =
     (if length (edgeSet s) > 0
      then (case prune_loop (currBestScore s) (edgeSet s) (int (length (edgeSet s)) - 1) of
              Inl err \<Rightarrow> Inl err
            | Inr (es, tailIndex) \<Rightarrow>
                if length es > 0
                then (if length (workQueue s) < workQueueSize
                      then Inr (s\<lparr>workQueue := workQueue s @ [es ! nat tailIndex],
                                  drawingQueue := (if drawerReady
                                                   then drawingQueue s @ [es ! nat tailIndex]
                                                   else drawingQueue s),
                                  edgeSet := take (nat tailIndex) es,
                                  outstandingJobs := outstandingJobs s + 1,
                                  processed := processed s + 1\<rparr>)
                      else Inr (s\<lparr>edgeSet := es\<rparr>))
                else Inr (s\<lparr>edgeSet := es\<rparr>))
      else Inr s)"

definition insertBoard :: "MinimalBoard \<Rightarrow> state \<Rightarrow> state \<times> bool" where
  "insertBoard minimalBoard s =
     (if \<not> Contains (seenBoards s) minimalBoard
      then (s\<lparr>seenBoards := Put (seenBoards s) minimalBoard,
               edgeSet := edgeSet s @ [minimalBoard]\<rparr>, True)
      else (s\<lparr>duplicates := duplicates s + 1\<rparr>, False))"

text \<open>What the orchestrator does with one board received from \<^verbatim>\<open>newBoardQueue\<close>.\<close>

definition ingest :: "MinimalBoard \<Rightarrow> state \<Rightarrow> state" where
  "ingest newBoard s =
     (if IsSolved newBoard
      then (let s = (if IsSolved newBoard \<and> Score newBoard < currBestScore s
                     then s\<lparr>currBestScore := int32 (Score newBoard), scoreIsDirty := True\<rparr>
                     else s)
            in s\<lparr>drawingQueue := drawingQueue s @ [newBoard]\<rparr>)
      else fst (insertBoard newBoard s))"

text \<open>
  The termination condition, without the profiling timeout: nothing in the edge set,
  nothing in either channel, and the counter at zero.
\<close>

definition may_terminate :: "state \<Rightarrow> bool" where
  "may_terminate s =
     (length (edgeSet s) = 0 \<and> length (workQueue s) = 0 \<and> length (newBoardQueue s) = 0 \<and>
      outstandingJobs s = 0)"

text \<open>
  \<^verbatim>\<open>newBoardLoop\<close>: receive while \<^verbatim>\<open>newBoardQueue\<close> has a board; after each one, check
  the termination condition. The value is the state, the number of boards received, and
  whether the orchestrator has returned.
\<close>

fun drain :: "MinimalBoard list \<Rightarrow> state \<Rightarrow> int \<Rightarrow> state \<times> int \<times> bool" where
  "drain [] s newBoards = (s, newBoards, False)"
| "drain (newBoard # rest) s newBoards =
     (let s = ingest newBoard (s\<lparr>newBoardQueue := rest\<rparr>);
          newBoards = newBoards + 1
      in if may_terminate s then (s, newBoards, True) else drain rest s newBoards)"

text \<open>
  \<^verbatim>\<open>sort.Slice\<close> is the standard library's: it sorts the slice in place by \<^verbatim>\<open>less\<close> and
  promises no order between elements that \<^verbatim>\<open>less\<close> does not separate. The model is a
  sort by insertion, one of the orders Go allows.
\<close>

fun insert_by :: "('a \<Rightarrow> 'a \<Rightarrow> bool) \<Rightarrow> 'a \<Rightarrow> 'a list \<Rightarrow> 'a list" where
  "insert_by lessFn a [] = [a]"
| "insert_by lessFn a (c # cs) =
     (if lessFn c a then c # insert_by lessFn a cs else a # c # cs)"

definition sort_Slice :: "('a \<Rightarrow> 'a \<Rightarrow> bool) \<Rightarrow> 'a list \<Rightarrow> 'a list" where
  "sort_Slice lessFn as = foldr (insert_by lessFn) as []"

definition resort :: "nat \<Rightarrow> int \<Rightarrow> state \<Rightarrow> state" where
  "resort workQueueSize newBoards s =
     (let offset = int (length (edgeSet s)) - (newBoards + int workQueueSize);
          (offset, dirty) = (if offset < 0 \<or> scoreIsDirty s then (0, False)
                             else (offset, scoreIsDirty s))
      in s\<lparr>scoreIsDirty := dirty,
            edgeSet := take (nat offset) (edgeSet s)
                       @ sort_Slice (\<lambda>a c. f32_less (Heuristic a) (Heuristic c))
                           (drop (nat offset) (edgeSet s))\<rparr>)"

text \<open>One pass of the orchestrator's loop, unless it returns or panics.\<close>

definition orchestrator_pass :: "nat \<Rightarrow> bool \<Rightarrow> state \<Rightarrow> error + state \<times> bool" where
  "orchestrator_pass workQueueSize drawerReady s =
     (case dispatch workQueueSize drawerReady s of
        Inl err \<Rightarrow> Inl err
      | Inr s \<Rightarrow>
          (case drain (newBoardQueue s) s 0 of
             (s, newBoards, True) \<Rightarrow> Inr (s, True)
           | (s, newBoards, False) \<Rightarrow> Inr (resort workQueueSize newBoards s, False)))"

text \<open>
  The states the program can be in: it starts in \<open>initial_state\<close>; the orchestrator makes
  passes, each one while it does not panic; workers take boards and finish jobs in
  between. (A pass of the orchestrator is taken as one step: what a worker does during a
  pass is put before or after it.)
\<close>

inductive reachable :: "(rat \<Rightarrow> rat) \<Rightarrow> nat \<Rightarrow> state \<Rightarrow> bool" for rnd workQueueSize where
  reach_start: "reachable rnd workQueueSize initial_state"
| reach_pass: "reachable rnd workQueueSize s
     \<Longrightarrow> orchestrator_pass workQueueSize drawerReady s = Inr (s', stopped)
     \<Longrightarrow> reachable rnd workQueueSize s'"
| reach_take: "reachable rnd workQueueSize s \<Longrightarrow> worker_take s = Some s'
     \<Longrightarrow> reachable rnd workQueueSize s'"
| reach_finish: "reachable rnd workQueueSize s \<Longrightarrow> worker_finish rnd cancel i s = Some s'
     \<Longrightarrow> reachable rnd workQueueSize s'"

section \<open>Coverage of the sliding pieces\<close>

text \<open>
  What the specification says of a sliding piece, written down without the loop: the
  \<open>k\<close>-th cell of the ray from \<open>p\<close> in direction \<open>d\<close>; whether that cell is on the board;
  whether the walk gets there (the cells before it are empty); the cells the walk covers.
\<close>

definition ray_cell :: "point \<Rightarrow> direction \<Rightarrow> int \<Rightarrow> point" where
  "ray_cell p d k = p + k * (BOARD_SIZE * dx d + dy d)"

definition on_board :: "point \<Rightarrow> direction \<Rightarrow> int \<Rightarrow> bool" where
  "on_board p d k =
     (0 \<le> p div BOARD_SIZE + k * dx d \<and> p div BOARD_SIZE + k * dx d < BOARD_SIZE \<and>
      0 \<le> p mod BOARD_SIZE + k * dy d \<and> p mod BOARD_SIZE + k * dy d < BOARD_SIZE)"

definition reached :: "Board \<Rightarrow> point \<Rightarrow> direction \<Rightarrow> int \<Rightarrow> bool" where
  "reached b p d k = (on_board p d k \<and> (\<forall>j \<in> {1..<k}. isEmpty b (ray_cell p d j)))"

definition ray_spec :: "Board \<Rightarrow> point \<Rightarrow> direction \<Rightarrow> pointSet" where
  "ray_spec b p d = ray_cell p d ` {k \<in> {1..BOARD_SIZE - 1}. reached b p d k}"

definition example_board :: Board where
  "example_board = setPiece (setPiece newBoardArray 27 QUEEN) 3 PAWN"

lemma on_board_0: "valid_point p \<Longrightarrow> on_board p d 0"
  by (auto simp: on_board_def valid_point_def)

lemma on_board_mono: "on_board p d k \<Longrightarrow> valid_point p \<Longrightarrow> 0 \<le> j \<Longrightarrow> j \<le> k \<Longrightarrow> on_board p d j"
  unfolding on_board_def valid_point_def
  by (cases d) (simp_all, linarith+)

lemma on_board_bound: "on_board p d k \<Longrightarrow> valid_point p \<Longrightarrow> 0 \<le> k \<Longrightarrow> k \<le> 7"
  unfolding on_board_def valid_point_def
  by (cases d) (simp_all, linarith+)

lemma ray_cell_coords:
  assumes "on_board p d k"
  shows "valid_point (ray_cell p d k)"
    and "ray_cell p d k div 8 = p div 8 + k * dx d"
    and "ray_cell p d k mod 8 = p mod 8 + k * dy d"
proof -
  define X where "X = p div 8 + k * dx d"
  define Y where "Y = p mod 8 + k * dy d"
  have XY: "0 \<le> X" "X < 8" "0 \<le> Y" "Y < 8"
    using assms by (auto simp: on_board_def X_def Y_def)
  have eq: "ray_cell p d k = 8 * X + Y"
    unfolding ray_cell_def X_def Y_def by (simp add: algebra_simps)
  show "valid_point (ray_cell p d k)"
    using XY unfolding eq valid_point_def by auto
  show "ray_cell p d k div 8 = p div 8 + k * dx d"
    using XY unfolding eq X_def[symmetric] by auto
  show "ray_cell p d k mod 8 = p mod 8 + k * dy d"
    using XY unfolding eq Y_def[symmetric] by auto
qed

lemma ray_cell_0: "ray_cell p d 0 = p"
  by (simp add: ray_cell_def)

lemma point_add_ray_cell:
  assumes "on_board p d k"
  shows "point_add (ray_cell p d k) (dx d) (dy d) = (ray_cell p d (k + 1), on_board p d (k + 1))"
proof -
  have small: "\<bar>dx d\<bar> \<le> 2" "\<bar>dy d\<bar> \<le> 2"
    using dxy_range[of d] by auto
  show ?thesis
    unfolding point_add_valid_point[OF ray_cell_coords(1)[OF assms] small]
      ray_cell_coords(2,3)[OF assms]
    by (simp add: ray_cell_def on_board_def algebra_simps)
qed

text \<open>The walk from the k-th cell of a ray.\<close>

lemma ray_from:
  assumes p: "valid_point p" and k: "0 \<le> k" and ob: "on_board p d k"
    and free: "\<forall>j \<in> {1..k}. isEmpty b (ray_cell p d j)"
  shows "(case slide b d (point_add (ray_cell p d k) (dx d) (dy d)) R of
            (result, next, valid) \<Rightarrow> if valid then put result next else result)
         = R \<union> ray_cell p d ` {i. k < i \<and> reached b p d i}"
  using k ob free
proof (induction "nat (7 - k)" arbitrary: k R)
  case 0
  then have "k = 7" using on_board_bound[OF \<open>on_board p d k\<close> p] by auto
  have nob: "\<not> on_board p d i" if "k < i" for i
    using on_board_bound[OF _ p, of d i] that \<open>k = 7\<close> by auto
  have e: "ray_cell p d ` {i. k < i \<and> reached b p d i} = {}"
    using nob by (auto simp: reached_def)
  show ?case
    unfolding e using nob[of "k + 1"] by (simp add: point_add_ray_cell[OF 0(3)] slide.simps)
next
  case (Suc n)
  show ?case
  proof (cases "on_board p d (k + 1)")
    case False
    have nob: "\<not> on_board p d i" if "k < i" for i
      using on_board_mono[OF _ p, of d i "k + 1"] that False Suc(3) by auto
    have e: "ray_cell p d ` {i. k < i \<and> reached b p d i} = {}"
      using nob by (auto simp: reached_def)
    show ?thesis
      unfolding e using False by (simp add: point_add_ray_cell[OF Suc(4)] slide.simps)
  next
    case ob': True
    have r1: "reached b p d (k + 1)"
      using ob' Suc(5) by (auto simp: reached_def)
    show ?thesis
    proof (cases "isEmpty b (ray_cell p d (k + 1))")
      case False
      have "\<not> reached b p d i" if "k + 1 < i" for i
        using that False Suc(3) by (auto simp: reached_def)
      then have "{i. k < i \<and> reached b p d i} = {k + 1}"
        using r1 by (auto simp: not_less) (metis add1_zle_eq order_le_less)
      then have e: "ray_cell p d ` {i. k < i \<and> reached b p d i} = {ray_cell p d (k + 1)}"
        by simp
      show ?thesis
        unfolding e using False ob' by (simp add: point_add_ray_cell[OF Suc(4)] put_def slide.simps)
    next
      case True
      have free': "\<forall>j \<in> {1..k + 1}. isEmpty b (ray_cell p d j)"
      proof
        fix j assume "j \<in> {1..k + 1}"
        then have "j \<in> {1..k} \<or> j = k + 1" by auto
        then show "isEmpty b (ray_cell p d j)" using True Suc(5) by auto
      qed
      have n: "n = nat (7 - (k + 1))" using Suc(2) by auto
      have k1: "0 \<le> k + 1" using Suc(3) by simp
      have "{i. k < i \<and> reached b p d i} = insert (k + 1) {i. k + 1 < i \<and> reached b p d i}"
        using r1 by auto
      then have e: "ray_cell p d ` {i. k < i \<and> reached b p d i}
          = insert (ray_cell p d (k + 1)) (ray_cell p d ` {i. k + 1 < i \<and> reached b p d i})"
        by simp
      have step: "slide b d (point_add (ray_cell p d k) (dx d) (dy d)) R
          = slide b d (point_add (ray_cell p d (k + 1)) (dx d) (dy d)) (put R (ray_cell p d (k + 1)))"
        using True ob' by (simp add: point_add_ray_cell[OF Suc(4)] slide.simps[of b d "ray_cell p d (k + 1)"])
      show ?thesis
        unfolding e step Suc(1)[OF n k1 ob' free'] by (simp add: put_def)
    qed
  qed
qed

lemma ray_eq_spec:
  assumes p: "valid_point p"
  shows "ray b p d R = R \<union> ray_spec b p d"
proof -
  have "{i. 0 < i \<and> reached b p d i} = {k \<in> {1..BOARD_SIZE - 1}. reached b p d k}"
    using on_board_bound[OF _ p] by (auto simp: reached_def)
  then show ?thesis
    using ray_from[where k = 0 and b = b and R = R and d = d, OF p _ on_board_0[OF p]]
    by (simp add: ray_def ray_spec_def ray_cell_0)
qed

lemma ray_spec_valid: "q \<in> ray_spec b p d \<Longrightarrow> valid_point q"
  by (auto simp: ray_spec_def reached_def ray_cell_coords(1))

subsection \<open>Every covered point lies on the board\<close>

lemma slide_valid:
  assumes "v \<longrightarrow> valid_point n" "\<forall>q \<in> R. valid_point q" "slide b d (n, v) R = (R', n', v')"
  shows "(\<forall>q \<in> R'. valid_point q) \<and> (v' \<longrightarrow> valid_point n')"
  using assms
proof (induction b d "(n, v)" R arbitrary: n v rule: slide.induct)
  case (1 b d "next" valid result)
  show ?case
  proof (cases "valid \<and> isEmpty b next")
    case True
    obtain n2 v2 where pa: "point_add next (dx d) (dy d) = (n2, v2)"
      by (cases "point_add next (dx d) (dy d)")
    have small: "\<bar>dx d\<bar> \<le> 2" "\<bar>dy d\<bar> \<le> 2"
      using dxy_range[of d] by auto
    have v2: "v2 \<longrightarrow> valid_point n2"
      using point_add_valid_range[OF small, of "next"] pa by simp
    have R: "\<forall>q \<in> put result next. valid_point q"
      using 1(2,3) True by (simp add: put_def)
    have "slide b d (next, valid) result = slide b d (n2, v2) (put result next)"
      by (subst slide.simps) (simp add: True pa)
    then have s: "slide b d (n2, v2) (put result next) = (R', n', v')"
      using 1(4) by simp
    show ?thesis
      using 1(1)[OF True pa v2 R s] .
  next
    case False
    have "slide b d (next, valid) result = (result, next, valid)"
      by (subst slide.simps) (use False in auto)
    then show ?thesis using 1(2,3,4) by auto
  qed
qed

lemma ray_valid: "\<forall>q \<in> R. valid_point q \<Longrightarrow> \<forall>q \<in> ray b p d R. valid_point q"
proof -
  assume R: "\<forall>q \<in> R. valid_point q"
  obtain n v where pa: "point_add p (dx d) (dy d) = (n, v)"
    by (cases "point_add p (dx d) (dy d)")
  obtain R' n' v' where s: "slide b d (n, v) R = (R', n', v')"
    by (cases "slide b d (n, v) R")
  have small: "\<bar>dx d\<bar> \<le> 2" "\<bar>dy d\<bar> \<le> 2"
    using dxy_range[of d] by auto
  have "v \<longrightarrow> valid_point n"
    using point_add_valid_range[OF small, of p] pa by simp
  from slide_valid[OF this R s] show ?thesis
    by (auto simp: ray_def pa s put_def)
qed

lemma jump_valid:
  assumes "\<forall>q \<in> R. valid_point q" "\<forall>(x, y) \<in> set offs. \<bar>x\<bar> \<le> 2 \<and> \<bar>y\<bar> \<le> 2"
  shows "\<forall>q \<in> fold (\<lambda>(x, y) result. case point_add p x y of (possiblePoint, valid) \<Rightarrow>
             if valid then put result possiblePoint else result) offs R. valid_point q"
  using assms
proof (induction offs arbitrary: R)
  case Nil
  then show ?case by simp
next
  case (Cons a offs)
  obtain x y where a: "a = (x, y)" by (cases a)
  obtain n v where pa: "point_add p x y = (n, v)" by (cases "point_add p x y")
  have "v \<longrightarrow> valid_point n"
    using point_add_valid_range[of x y p] pa Cons.prems(2) a by auto
  then have "\<forall>q \<in> (if v then put R n else R). valid_point q"
    using Cons.prems(1) by (auto simp: put_def)
  from Cons.IH[OF this] Cons.prems(2) show ?case
    by (simp add: a pa)
qed

lemma getCoverage_valid:
  assumes "getCoverage b p pc = Inr cov" "q \<in> cov"
  shows "valid_point q"
proof -
  have rays: "\<forall>q \<in> fold (ray b p) ds R. valid_point q" if "\<forall>q \<in> R. valid_point q" for ds R
    using that
  proof (induction ds arbitrary: R)
    case Nil
    then show ?case by simp
  next
    case (Cons d ds)
    show ?case using Cons.IH[OF ray_valid[OF Cons.prems]] by simp
  qed
  have "\<forall>q \<in> pawnCoverage p. valid_point q" "\<forall>q \<in> knightCoverage p. valid_point q"
    unfolding pawnCoverage_def knightCoverage_def by (intro jump_valid; simp)+
  moreover have "\<forall>q \<in> bishopCoverage b p. valid_point q" "\<forall>q \<in> rookCoverage b p. valid_point q"
    unfolding bishopCoverage_def rookCoverage_def by (intro rays; simp)+
  ultimately show ?thesis
    using assms by (auto simp: getCoverage_def queenCoverage_def split: if_splits)
qed


text \<open>
  Claim C1. For every board and every origin on the board, the coverage of a bishop is
  the union over the four diagonal directions, and that of a rook the union over the four
  straight directions, of the cells the ray walk reaches: the \<open>k\<close>-th cell of the ray is
  covered exactly when it lies on the board and every cell of the ray before it is empty.
  So every empty cell traversed is covered, the first occupied cell is covered and nothing
  behind it is, and no point off the board is covered. The coverage of a queen is the union
  of the two.
\<close>

theorem sliding_coverage_walks_rays:
  assumes "valid_point p"
  shows "bishopCoverage b p = (\<Union>d \<in> {Diag_pp, Diag_mp, Diag_pm, Diag_mm}. ray_spec b p d)
       \<and> rookCoverage b p = (\<Union>d \<in> {Line_p0, Line_0p, Line_m0, Line_0m}. ray_spec b p d)
       \<and> queenCoverage b p = bishopCoverage b p \<union> rookCoverage b p
       \<and> (\<forall>q \<in> queenCoverage b p. valid_point q)"
  by (auto simp: bishopCoverage_def rookCoverage_def queenCoverage_def ray_eq_spec[OF assms]
      ray_spec_valid)


theorem sliding_coverage_walks_rays_witness:
  "valid_point 27
   \<and> bishopCoverage example_board 27 = (\<Union>d \<in> {Diag_pp, Diag_mp, Diag_pm, Diag_mm}. ray_spec example_board 27 d)
   \<and> rookCoverage example_board 27 = (\<Union>d \<in> {Line_p0, Line_0p, Line_m0, Line_0m}. ray_spec example_board 27 d)
   \<and> queenCoverage example_board 27 = bishopCoverage example_board 27 \<union> rookCoverage example_board 27
   \<and> queenCoverage example_board 27 \<subseteq> Collect valid_point"
  using sliding_coverage_walks_rays[of 27 example_board] by (auto simp: valid_point_def)

section \<open>Scores\<close>

text \<open>
  The values the specification gives to the pieces; the pieces of the closed set; the
  boards that hold no other piece; and a board with the byte 6 in its first cell.
\<close>

definition piece_value :: "Piece \<Rightarrow> int" where
  "piece_value pc =
     (if pc = PAWN then 1 else if pc = KNIGHT then 3 else if pc = BISHOP then 3
      else if pc = ROOK then 5 else if pc = QUEEN then 9 else 0)"

definition known_piece :: "Piece \<Rightarrow> bool" where
  "known_piece pc = (pc \<in> {PAWN, KNIGHT, BISHOP, ROOK, QUEEN})"

definition closed_pieces :: "Board \<Rightarrow> bool" where
  "closed_pieces b =
     list_all (\<lambda>(x, y). piece (cellAt b x y) = NONE \<or> known_piece (piece (cellAt b x y))) positions"

definition unknown_piece_board :: Board where
  "unknown_piece_board = setPiece newBoardArray 0 6"

lemma GetScore_known: "known_piece pc \<Longrightarrow> GetScore pc = Inr (piece_value pc)"
  by (auto simp: known_piece_def GetScore_def scores_def piece_value_def)

lemma GetScore_unknown: "\<not> known_piece pc \<Longrightarrow> GetScore pc = Inl (Panicked (UnknownPieceScore pc))"
  by (auto simp: known_piece_def GetScore_def scores_def)

lemma forE_score_closed:
  assumes "list_all (\<lambda>(x, y). piece (cellAt b x y) = NONE \<or> known_piece (piece (cellAt b x y))) ps"
  shows "forE ps acc (score_step b)
           = Inr (acc + sum_list (map (\<lambda>(x, y). piece_value (piece (cellAt b x y))) ps))"
  using assms
proof (induction ps arbitrary: acc)
  case Nil
  then show ?case by simp
next
  case (Cons a ps)
  obtain x y where a: "a = (x, y)" by (cases a)
  have "score_step b (x, y) acc = Inr (acc + piece_value (piece (cellAt b x y)))"
    using Cons.prems GetScore_known[of "piece (cellAt b x y)"]
    by (auto simp: a score_step_def Let_def piece_value_def)
  then show ?case
    using Cons.IH[of "acc + piece_value (piece (cellAt b x y))"] Cons.prems
    by (simp add: a add.assoc)
qed

lemma Board_Score_closed:
  "closed_pieces b \<Longrightarrow>
   Board_Score b = Inr (sum_list (map (\<lambda>(x, y). piece_value (piece (cellAt b x y))) positions))"
  using forE_score_closed[of b positions 0] by (simp add: Board_Score_def closed_pieces_def)

lemma forE_score_result:
  "forE ps acc (score_step b) = Inr s \<Longrightarrow>
   list_all (\<lambda>(x, y). piece (cellAt b x y) = NONE \<or> known_piece (piece (cellAt b x y))) ps"
proof (induction ps arbitrary: acc)
  case Nil
  then show ?case by simp
next
  case (Cons a ps)
  obtain x y where a: "a = (x, y)" by (cases a)
  from Cons.prems obtain acc' where st: "score_step b (x, y) acc = Inr acc'"
    and r: "forE ps acc' (score_step b) = Inr s"
    by (auto simp: a split: sum.splits)
  have "piece (cellAt b x y) = NONE \<or> known_piece (piece (cellAt b x y))"
    using st GetScore_unknown[of "piece (cellAt b x y)"]
    by (auto simp: score_step_def Let_def split: if_splits sum.splits)
  then show ?case
    using Cons.IH[OF r] by (simp add: a)
qed

lemma Board_Score_Inr_closed: "Board_Score b = Inr s \<Longrightarrow> closed_pieces b"
  using forE_score_result[of positions 0 b s] by (simp add: Board_Score_def closed_pieces_def)

lemma forE_score_error:
  "forE ps acc (score_step b) = Inl e \<Longrightarrow> \<exists>pc. \<not> known_piece pc \<and> e = Panicked (UnknownPieceScore pc)"
proof (induction ps arbitrary: acc)
  case Nil
  then show ?case by simp
next
  case (Cons a ps)
  obtain x y where a: "a = (x, y)" by (cases a)
  show ?case
  proof (cases "score_step b (x, y) acc")
    case (Inl e')
    then have "e' = e" using Cons.prems by (simp add: a)
    then show ?thesis
      using Inl GetScore_known[of "piece (cellAt b x y)"] GetScore_unknown[of "piece (cellAt b x y)"]
      by (cases "known_piece (piece (cellAt b x y))")
         (auto simp: score_step_def Let_def split: if_splits)
  next
    case (Inr acc')
    then show ?thesis using Cons.prems Cons.IH[of acc'] by (simp add: a)
  qed
qed

lemma Board_Score_error_is_panic:
  "Board_Score b = Inl e \<Longrightarrow> \<exists>pc. \<not> known_piece pc \<and> e = Panicked (UnknownPieceScore pc)"
  using forE_score_error[of positions 0 b e] by (simp add: Board_Score_def)

text \<open>
  The pieces of a board that \<^verbatim>\<open>Score\<close> has no value for, in scan order, and what
  \<^verbatim>\<open>Score\<close> comes to on every board: the sum, or the panic of \<^verbatim>\<open>GetScore\<close> at the
  first of these pieces.
\<close>

definition unknown_pieces :: "Board \<Rightarrow> Piece list" where
  "unknown_pieces b =
     filter (\<lambda>pc. pc \<noteq> NONE \<and> \<not> known_piece pc) (map (\<lambda>(x, y). piece (cellAt b x y)) positions)"

lemma forE_score_outcome:
  "forE ps acc (score_step b)
     = (if list_all (\<lambda>(x, y). piece (cellAt b x y) = NONE \<or> known_piece (piece (cellAt b x y))) ps
        then Inr (acc + sum_list (map (\<lambda>(x, y). piece_value (piece (cellAt b x y))) ps))
        else Inl (Panicked (UnknownPieceScore
               (hd (filter (\<lambda>pc. pc \<noteq> NONE \<and> \<not> known_piece pc)
                      (map (\<lambda>(x, y). piece (cellAt b x y)) ps))))))"
proof (induction ps arbitrary: acc)
  case Nil
  then show ?case by simp
next
  case (Cons a ps)
  obtain x y where a: "a = (x, y)" by (cases a)
  let ?pc = "piece (cellAt b x y)"
  consider (none) "?pc = NONE" | (known) "known_piece ?pc" | (unknown) "?pc \<noteq> NONE" "\<not> known_piece ?pc"
    by blast
  then show ?case
  proof cases
    case none
    then have "score_step b (x, y) acc = Inr acc" by (simp add: score_step_def)
    then show ?thesis
      using Cons.IH[of acc] none by (simp add: a piece_value_def)
  next
    case known
    then have n: "?pc \<noteq> NONE" by (auto simp: known_piece_def)
    have "score_step b (x, y) acc = Inr (acc + piece_value ?pc)"
      using n GetScore_known[OF known] by (simp add: score_step_def)
    then show ?thesis
      using Cons.IH[of "acc + piece_value ?pc"] known n by (simp add: a add.assoc)
  next
    case unknown
    have "score_step b (x, y) acc = Inl (Panicked (UnknownPieceScore ?pc))"
      using unknown GetScore_unknown[OF unknown(2)] by (simp add: score_step_def)
    then show ?thesis
      using unknown by (simp add: a)
  qed
qed

text \<open>
  Claim C8 fails as stated, in its second half: on a piece outside the closed set
  \<^verbatim>\<open>GetScore\<close> runs \<^verbatim>\<open>if !ok { panic(...) }\<close>, and its error result is \<^verbatim>\<open>nil\<close> on every
  path, so \<^verbatim>\<open>Score\<close> has no error to return and the caller nothing to match on. On the
  board with the byte 6 in its first cell \<^verbatim>\<open>Score\<close> panics. (It is
  \<^verbatim>\<open>settleSupportGraph\<close> that returns an error for this board, and every board the program
  scores has been settled before.)
\<close>

theorem Board_Score_unknown_piece_counterexample:
  "wf_board unknown_piece_board
   \<and> Board_Score unknown_piece_board = Inl (Panicked (UnknownPieceScore 6))
   \<and> settleSupportGraph unknown_piece_board = Inl (Wrapped (UnknownPieceCoverage 6))"
  by code_simp

text \<open>
  Claim C8, amended. On every board whose occupied cells all hold pieces of the closed set,
  \<^verbatim>\<open>Score\<close> returns the sum of the values of the pieces (pawn 1, knight 3, bishop 3, rook
  5, queen 9). On every other board it returns nothing: it panics, at the first piece in
  scan order that is outside the closed set, with that piece in the message. It never
  returns an error value.
\<close>

theorem Board_Score_sum_or_panic:
  "Board_Score b
     = (if closed_pieces b
        then Inr (sum_list (map (\<lambda>(x, y). piece_value (piece (cellAt b x y))) positions))
        else Inl (Panicked (UnknownPieceScore (hd (unknown_pieces b)))))"
  using forE_score_outcome[of positions 0 b]
  by (simp add: Board_Score_def closed_pieces_def unknown_pieces_def)

theorem Board_Score_sum_or_panic_witness:
  "closed_pieces example_board \<and> Board_Score example_board = Inr 10
   \<and> \<not> closed_pieces unknown_piece_board
   \<and> Board_Score unknown_piece_board = Inl (Panicked (UnknownPieceScore 6))"
proof -
  have c: "closed_pieces example_board" by code_simp
  have v: "sum_list (map (\<lambda>(x, y). piece_value (piece (cellAt example_board x y))) positions) = 10"
    by code_simp
  have n: "\<not> closed_pieces unknown_piece_board" by code_simp
  have u: "hd (unknown_pieces unknown_piece_board) = 6" by code_simp
  from Board_Score_sum_or_panic[of example_board] Board_Score_sum_or_panic[of unknown_piece_board]
    c v n u
  show ?thesis by simp
qed

section \<open>Errors come from unknown pieces only\<close>

lemma closed_pieces_iff:
  "closed_pieces b \<longleftrightarrow>
     (\<forall>(x, y) \<in> set positions. piece (cellAt b x y) = NONE \<or> known_piece (piece (cellAt b x y)))"
  by (simp add: closed_pieces_def list_all_iff)

lemma getCoverage_known: "known_piece pc \<Longrightarrow> \<exists>cov. getCoverage b p pc = Inr cov"
  by (auto simp: known_piece_def getCoverage_def)

lemma getCoverage_Inr_known: "getCoverage b p pc = Inr cov \<Longrightarrow> known_piece pc"
  by (auto simp: known_piece_def getCoverage_def split: if_splits)

lemma settle_step_ok:
  assumes "piece (cellAt b x y) = NONE \<or> known_piece (piece (cellAt b x y))"
  shows "\<exists>b'. settle_step (x, y) b = Inr b'"
  using assms getCoverage_known[of "piece (cellAt b x y)" b "newPointUnsafe x y"]
  by (auto simp: settle_step_def Let_def)

lemma forE_settle_ok:
  assumes "wf_board b" "set ps \<subseteq> set positions"
    "\<forall>(x, y) \<in> set positions. piece (cellAt b x y) = NONE \<or> known_piece (piece (cellAt b x y))"
  shows "\<exists>b'. forE ps b settle_step = Inr b'"
  using assms
proof (induction ps arbitrary: b)
  case Nil
  then show ?case by simp
next
  case (Cons a ps)
  obtain u v where a: "a = (u, v)" by (cases a)
  have uv: "(u, v) \<in> set positions" using Cons.prems(2) a by simp
  obtain b1 where s: "settle_step (u, v) b = Inr b1"
    using settle_step_ok[of b u v] Cons.prems(3) uv by auto
  have w: "wf_board b1" using settle_step_keeps(1)[OF s Cons.prems(1) uv uv] .
  have c: "\<forall>(x, y) \<in> set positions. piece (cellAt b1 x y) = NONE \<or> known_piece (piece (cellAt b1 x y))"
    using settle_step_keeps(2)[OF s Cons.prems(1) uv] Cons.prems(3) by auto
  show ?case
    using Cons.IH[OF w _ c] Cons.prems(2) by (simp add: a s)
qed

lemma settle_ok:
  assumes "wf_board b" "closed_pieces b"
  shows "\<exists>b'. settleSupportGraph b = Inr b'"
proof -
  have "\<forall>(x, y) \<in> set positions. piece (cellAt (map (map clearSupport) b) x y) = NONE
          \<or> known_piece (piece (cellAt (map (map clearSupport) b) x y))"
    using assms(2) cellAt_clear[OF assms(1)] by (auto simp: closed_pieces_iff clearSupport_def)
  from forE_settle_ok[OF wf_clear[OF assms(1)] subset_refl this] show ?thesis
    by (simp add: settleSupportGraph_def)
qed

section \<open>Compaction and reconstruction\<close>

definition example_compact :: MinimalBoard where
  "example_compact =
     \<lparr>board = (replicate 64 NONE)[27 := QUEEN, 3 := PAWN], Heuristic = F32 0, IsSolved = False,
      Score = 10, Coverage = 0\<rparr>"

text \<open>The occupancy array written by \<open>getMinimalBoard\<close>.\<close>

lemma positions_index:
  "map (\<lambda>(x, y). nat (x * 8 + y)) positions = [0..<64]"
  by code_simp

lemma fold_board_update:
  assumes "distinct (map idx ps)" "\<forall>a \<in> set ps. idx a < length (board m0)" "a \<in> set ps"
  shows "board (fold (\<lambda>a result. result\<lparr>board := (board result)[idx a := val a]\<rparr>) ps m0) ! idx a = val a
       \<and> length (board (fold (\<lambda>a result. result\<lparr>board := (board result)[idx a := val a]\<rparr>) ps m0)) = length (board m0)"
  using assms
proof (induction ps arbitrary: m0)
  case Nil
  then show ?case by simp
next
  case (Cons c ps)
  let ?m1 = "m0\<lparr>board := (board m0)[idx c := val c]\<rparr>"
  have keep: "board (fold (\<lambda>a result. result\<lparr>board := (board result)[idx a := val a]\<rparr>) ps m) ! i = board m ! i
      \<and> length (board (fold (\<lambda>a result. result\<lparr>board := (board result)[idx a := val a]\<rparr>) ps m)) = length (board m)"
    if "i \<notin> idx ` set ps" for i m
    using that by (induction ps arbitrary: m) auto
  show ?case
  proof (cases "a = c")
    case True
    then show ?thesis
      using keep[of "idx c" ?m1] Cons.prems by auto
  next
    case False
    then have "a \<in> set ps" using Cons.prems(3) by simp
    then show ?thesis
      using Cons.IH[of ?m1] Cons.prems by auto
  qed
qed


lemma getMinimalBoard_board:
  assumes "getMinimalBoard h b = Inr m" "(x, y) \<in> set positions"
  shows "board m ! nat (x * 8 + y) = piece (cellAt b x y)" "length (board m) = 64"
    "closed_pieces b"
proof -
  from assms(1) obtain hs sc where h: "h b = Inr hs" and sc: "Board_Score b = Inr sc"
    by (auto simp: getMinimalBoard_def split: sum.splits)
  show "closed_pieces b" using Board_Score_Inr_closed[OF sc] .
  define m0 where "m0 = zeroMinimalBoard\<lparr>Heuristic := hs,
      IsSolved := (GetCoverageLevel b = BOARD_SIZE * BOARD_SIZE), Score := sc,
      Coverage := GetCoverageLevel b\<rparr>"
  define idx where "idx = (\<lambda>a :: int \<times> int. nat (fst a * 8 + snd a))"
  define val where "val = (\<lambda>a :: int \<times> int. piece (cellAt b (fst a) (snd a)))"
  have m: "m = fold (\<lambda>a result. result\<lparr>board := (board result)[idx a := val a]\<rparr>) positions m0"
    using assms(1) h sc by (simp add: getMinimalBoard_def m0_def idx_def val_def case_prod_beta')
  have l0: "length (board m0) = 64" by (simp add: m0_def zeroMinimalBoard_def)
  have "map idx positions = [0..<64]"
    using positions_index by (simp add: idx_def case_prod_beta')
  then have d: "distinct (map idx positions)" "\<forall>a \<in> set positions. idx a < length (board m0)"
    using l0 by (simp_all add: list_all_iff) (metis (no_types) atLeastLessThan_iff imageI list.set_map set_upt)
  from fold_board_update[OF d assms(2), of val] show
    "board m ! nat (x * 8 + y) = piece (cellAt b x y)" "length (board m) = 64"
    by (simp_all add: m l0 idx_def val_def)
qed

lemma positions_from_index:
  "map (\<lambda>i. (i sdiv 8, i smod 8)) [0..63] = positions"
  by code_simp

lemma RebuildBoard_array:
  "fold (\<lambda>i bd. setCell bd (i sdiv BOARD_SIZE) (i smod BOARD_SIZE)
                  \<lparr>piece = board m ! nat i, supports = {}, supportedBy = {}\<rparr>)
     [0..63] newBoardArray
   = fold (\<lambda>(x, y) nb. setCell nb x y \<lparr>piece = board m ! nat (x * 8 + y), supports = {},
                                        supportedBy = {}\<rparr>) positions newBoardArray"
proof -
  have "(\<lambda>i bd. setCell bd (i sdiv 8) (i smod 8)
                  \<lparr>piece = board m ! nat i, supports = {}, supportedBy = {}\<rparr>)
      = (\<lambda>(x, y) nb. setCell nb x y \<lparr>piece = board m ! nat (x * 8 + y), supports = {},
                                        supportedBy = {}\<rparr>) \<circ> (\<lambda>i. (i sdiv 8, i smod 8))"
    by (simp add: fun_eq_iff sdiv_mult_smod_eq)
  then show ?thesis
    unfolding positions_from_index[symmetric] fold_map by simp
qed

lemma RebuildBoard_cells:
  assumes "RebuildBoard m = Inr b'" "(x, y) \<in> set positions"
  shows "wf_board b'" "piece (cellAt b' x y) = board m ! nat (x * 8 + y)"
proof -
  let ?bd = "fold (\<lambda>(x, y) nb. setCell nb x y \<lparr>piece = board m ! nat (x * 8 + y), supports = {},
                                        supportedBy = {}\<rparr>) positions newBoardArray"
  have s: "settleSupportGraph ?bd = Inr b'"
    using assms(1) by (auto simp: RebuildBoard_def RebuildBoard_array Let_def split: sum.splits)
  have f: "wf_board ?bd" "cellAt ?bd x y = \<lparr>piece = board m ! nat (x * 8 + y), supports = {},
                                        supportedBy = {}\<rparr>"
    using fold_setCell[OF wf_newBoardArray subset_refl assms(2),
        of "\<lambda>x y. \<lparr>piece = board m ! nat (x * 8 + y), supports = {}, supportedBy = {}\<rparr>"]
      assms(2) by simp_all
  show "wf_board b'" using settle_keeps(1)[OF s f(1) assms(2)] .
  show "piece (cellAt b' x y) = board m ! nat (x * 8 + y)"
    using settle_keeps(2)[OF s f(1) assms(2)] f(2) by simp
qed

lemma RebuildBoard_ok:
  assumes "\<forall>(x, y) \<in> set positions. board m ! nat (x * 8 + y) = NONE
             \<or> known_piece (board m ! nat (x * 8 + y))"
  shows "\<exists>b'. RebuildBoard m = Inr b'"
proof -
  let ?bd = "fold (\<lambda>(x, y) nb. setCell nb x y \<lparr>piece = board m ! nat (x * 8 + y), supports = {},
                                        supportedBy = {}\<rparr>) positions newBoardArray"
  have f: "wf_board ?bd" "cellAt ?bd x y = \<lparr>piece = board m ! nat (x * 8 + y), supports = {},
                                        supportedBy = {}\<rparr>" if "(x, y) \<in> set positions" for x y
    using fold_setCell[OF wf_newBoardArray subset_refl that,
        of "\<lambda>x y. \<lparr>piece = board m ! nat (x * 8 + y), supports = {}, supportedBy = {}\<rparr>"]
      that by simp_all
  have "(0, 0) \<in> set positions" by (simp add: set_positions)
  then have w: "wf_board ?bd" using f(1) by blast
  have "closed_pieces ?bd"
    using assms f(2) by (auto simp: closed_pieces_iff)
  from settle_ok[OF w this] show ?thesis
    by (auto simp: RebuildBoard_def RebuildBoard_array Let_def)
qed

text \<open>
  Claim C9. Round trip: whenever a board compacts to a compact state (under any heuristic
  function), rebuilding that compact state succeeds, and the rebuilt board holds in every
  cell the piece the original board holds there. The support sets of the rebuilt board are
  those computed by \<^verbatim>\<open>settleSupportGraph\<close>, whatever the original's were.
\<close>

theorem rebuild_compact_roundtrip:
  assumes "getMinimalBoard h b = Inr m"
  shows "\<exists>b'. RebuildBoard m = Inr b'
           \<and> (\<forall>(x, y) \<in> set positions. piece (cellAt b' x y) = piece (cellAt b x y))"
proof -
  have "(0, 0) \<in> set positions" by (simp add: set_positions)
  from getMinimalBoard_board(3)[OF assms this]
  have c: "\<forall>(x, y) \<in> set positions. piece (cellAt b x y) = NONE
             \<or> known_piece (piece (cellAt b x y))"
    by (simp add: closed_pieces_iff)
  have "\<forall>(x, y) \<in> set positions. board m ! nat (x * 8 + y) = NONE
             \<or> known_piece (board m ! nat (x * 8 + y))"
    using getMinimalBoard_board(1)[OF assms] c by auto
  from RebuildBoard_ok[OF this] obtain b' where r: "RebuildBoard m = Inr b'" ..
  show ?thesis
    using r RebuildBoard_cells(2)[OF r] getMinimalBoard_board(1)[OF assms] by auto
qed


theorem rebuild_compact_roundtrip_witness:
  "getMinimalBoard (heuristic (\<lambda>r. r)) example_board = Inr example_compact
   \<and> (\<exists>b'. RebuildBoard example_compact = Inr b'
           \<and> (\<forall>(x, y) \<in> set positions. piece (cellAt b' x y) = piece (cellAt example_board x y)))"
proof -
  have g: "getMinimalBoard (heuristic (\<lambda>r. r)) example_board = Inr example_compact"
    by code_simp
  from rebuild_compact_roundtrip[OF g] g show ?thesis by simp
qed

section \<open>The settled support graph\<close>

definition same_occupancy :: "Board \<Rightarrow> Board \<Rightarrow> bool" where
  "same_occupancy b b' = (\<forall>(x, y) \<in> set positions. piece (cellAt b x y) = piece (cellAt b' x y))"

text \<open>\<open>emptier b b'\<close>: every cell that is empty on \<open>b\<close> is empty on \<open>b'\<close>.\<close>

definition emptier :: "Board \<Rightarrow> Board \<Rightarrow> bool" where
  "emptier b b' = (\<forall>(x, y) \<in> set positions. piece (cellAt b x y) = NONE \<longrightarrow> piece (cellAt b' x y) = NONE)"

lemma valid_point_coords:
  assumes "valid_point p"
  shows "(point_x p, point_y p) \<in> set positions" "newPointUnsafe (point_x p) (point_y p) = p"
proof -
  have r: "0 \<le> p" "p < 64" using assms by (auto simp: valid_point_def)
  show pos: "(point_x p, point_y p) \<in> set positions"
    unfolding point_x_valid[OF assms] point_y_valid[OF assms] set_positions using r by auto
  have "newPointUnsafe (point_x p) (point_y p) = 8 * point_x p + point_y p"
    using newPointUnsafe_coords(1)[OF pos] .
  then show "newPointUnsafe (point_x p) (point_y p) = p"
    by (simp add: point_xy_decomp)
qed

lemma getCell_newPointUnsafe:
  "(x, y) \<in> set positions \<Longrightarrow> getCell b (newPointUnsafe x y) = cellAt b x y"
  unfolding getCell_def by (simp only: newPointUnsafe_coords(3,4))

lemma newPointUnsafe_inj:
  assumes "(x, y) \<in> set positions" "(u, v) \<in> set positions"
    "newPointUnsafe x y = newPointUnsafe u v"
  shows "x = u \<and> y = v"
  using newPointUnsafe_coords(3,4)[OF assms(1)] newPointUnsafe_coords(3,4)[OF assms(2)] assms(3)
  by simp

lemma isEmpty_emptier:
  "emptier b b' \<Longrightarrow> valid_point q \<Longrightarrow> isEmpty b q \<Longrightarrow> isEmpty b' q"
  using valid_point_coords(1)[of q] by (auto simp: emptier_def isEmpty_def getCell_def)

lemma same_occupancy_emptier: "same_occupancy b b' \<Longrightarrow> emptier b b' \<and> emptier b' b"
  by (auto simp: same_occupancy_def emptier_def)

lemma isEmpty_same:
  "same_occupancy b b' \<Longrightarrow> valid_point q \<Longrightarrow> isEmpty b q = isEmpty b' q"
  using isEmpty_emptier same_occupancy_emptier by blast

lemma slide_same:
  assumes "same_occupancy b b'" "v \<longrightarrow> valid_point n"
  shows "slide b d (n, v) R = slide b' d (n, v) R"
  using assms
proof (induction b d "(n, v)" R arbitrary: n v rule: slide.induct)
  case (1 b d "next" valid result)
  show ?case
  proof (cases "valid \<and> isEmpty b next")
    case True
    then have e': "valid \<and> isEmpty b' next"
      using isEmpty_same[OF 1(2)] 1(3) by auto
    obtain n2 v2 where pa: "point_add next (dx d) (dy d) = (n2, v2)"
      by (cases "point_add next (dx d) (dy d)")
    have small: "\<bar>dx d\<bar> \<le> 2" "\<bar>dy d\<bar> \<le> 2"
      using dxy_range[of d] by auto
    have v2: "v2 \<longrightarrow> valid_point n2"
      using point_add_valid_range[OF small, of "next"] pa by simp
    have "slide b d (next, valid) result = slide b d (n2, v2) (put result next)"
      by (subst slide.simps) (simp add: True pa)
    moreover have "slide b' d (next, valid) result = slide b' d (n2, v2) (put result next)"
      by (subst slide.simps) (simp add: e' pa)
    ultimately show ?thesis
      using 1(1)[OF True pa 1(2) v2] by simp
  next
    case False
    then have e': "\<not> (valid \<and> isEmpty b' next)"
      using isEmpty_same[OF 1(2)] 1(3) by auto
    have "slide b d (next, valid) result = (result, next, valid)"
      by (subst slide.simps) (use False in auto)
    moreover have "slide b' d (next, valid) result = (result, next, valid)"
      by (subst slide.simps) (use e' in auto)
    ultimately show ?thesis by simp
  qed
qed

lemma ray_same: "same_occupancy b b' \<Longrightarrow> ray b p d R = ray b' p d R"
proof -
  assume s: "same_occupancy b b'"
  obtain n v where pa: "point_add p (dx d) (dy d) = (n, v)"
    by (cases "point_add p (dx d) (dy d)")
  have small: "\<bar>dx d\<bar> \<le> 2" "\<bar>dy d\<bar> \<le> 2"
    using dxy_range[of d] by auto
  have "v \<longrightarrow> valid_point n"
    using point_add_valid_range[OF small, of p] pa by simp
  from slide_same[OF s this] show ?thesis
    by (simp add: ray_def pa)
qed

lemma getCoverage_same: "same_occupancy b b' \<Longrightarrow> getCoverage b p pc = getCoverage b' p pc"
proof -
  assume s: "same_occupancy b b'"
  have "ray b p = ray b' p"
    using ray_same[OF s] by (intro ext)
  then show ?thesis
    by (simp add: getCoverage_def bishopCoverage_def rookCoverage_def queenCoverage_def)
qed

text \<open>The coverage of the piece that stands on a cell, as the occupancy decides it.\<close>

definition coverageAt :: "Board \<Rightarrow> int \<Rightarrow> int \<Rightarrow> pointSet" where
  "coverageAt b x y =
     (case getCoverage b (newPointUnsafe x y) (piece (cellAt b x y)) of
        Inl err \<Rightarrow> {} | Inr coverage \<Rightarrow> coverage)"

lemma coverageAt_same: "same_occupancy b b' \<Longrightarrow> (x, y) \<in> set positions \<Longrightarrow> coverageAt b x y = coverageAt b' x y"
  using getCoverage_same[of b b'] by (auto simp: coverageAt_def same_occupancy_def)

lemma settle_step_char:
  assumes st: "settle_step (u, v) b = Inr b1" and w: "wf_board b" and uv: "(u, v) \<in> set positions"
    and xy: "(x, y) \<in> set positions"
  shows "supports (cellAt b1 x y)
           = (if (x, y) = (u, v) \<and> piece (cellAt b u v) \<noteq> NONE then coverageAt b u v
              else supports (cellAt b x y))"
    and "supportedBy (cellAt b1 x y)
           = supportedBy (cellAt b x y)
             \<union> (if piece (cellAt b u v) \<noteq> NONE \<and> newPointUnsafe x y \<in> coverageAt b u v
                then {newPointUnsafe u v} else {})"
proof -
  have ws: "wf_board (setCell b u v c)" for c using w wf_setCell by simp
  show "supports (cellAt b1 x y)
           = (if (x, y) = (u, v) \<and> piece (cellAt b u v) \<noteq> NONE then coverageAt b u v
              else supports (cellAt b x y))"
    using st cellAt_addSupportAll[OF ws xy] cellAt_setCell[OF w uv xy]
    by (auto simp: settle_step_def Let_def addSupport_def coverageAt_def split: if_splits sum.splits)
  show "supportedBy (cellAt b1 x y)
           = supportedBy (cellAt b x y)
             \<union> (if piece (cellAt b u v) \<noteq> NONE \<and> newPointUnsafe x y \<in> coverageAt b u v
                then {newPointUnsafe u v} else {})"
    using st cellAt_addSupportAll[OF ws xy] cellAt_setCell[OF w uv xy]
    by (auto simp: settle_step_def Let_def addSupport_def put_def coverageAt_def
        split: if_splits sum.splits)
qed

lemma forE_settle_char:
  assumes "forE ps b settle_step = Inr b'" "wf_board b" "set ps \<subseteq> set positions" "distinct ps"
    "(x, y) \<in> set positions"
  shows "supports (cellAt b' x y)
           = (if (x, y) \<in> set ps \<and> piece (cellAt b x y) \<noteq> NONE then coverageAt b x y
              else supports (cellAt b x y))
       \<and> supportedBy (cellAt b' x y)
           = supportedBy (cellAt b x y)
             \<union> {newPointUnsafe u v | u v. (u, v) \<in> set ps \<and> piece (cellAt b u v) \<noteq> NONE
                   \<and> newPointUnsafe x y \<in> coverageAt b u v}"
  using assms(1,2,3,4)
proof (induction ps arbitrary: b)
  case Nil
  then show ?case by simp
next
  case (Cons a ps)
  obtain u v where a: "a = (u, v)" by (cases a)
  from Cons.prems(1) obtain b1 where s: "settle_step (u, v) b = Inr b1"
    and r: "forE ps b1 settle_step = Inr b'"
    by (auto simp: a split: sum.splits)
  have uv: "(u, v) \<in> set positions" using Cons.prems(3) a by simp
  have w1: "wf_board b1" using settle_step_keeps(1)[OF s Cons.prems(2) uv uv] .
  have so: "same_occupancy b1 b"
    using settle_step_keeps(2)[OF s Cons.prems(2) uv] by (auto simp: same_occupancy_def)
  have cov: "coverageAt b1 x' y' = coverageAt b x' y'" if "(x', y') \<in> set positions" for x' y'
    using coverageAt_same[OF so that] .
  have pc: "piece (cellAt b1 x' y') = piece (cellAt b x' y')" if "(x', y') \<in> set positions" for x' y'
    using so that by (auto simp: same_occupancy_def)
  have ps: "set ps \<subseteq> set positions" "distinct ps" "(u, v) \<notin> set ps"
    using Cons.prems(3,4) a by auto
  from Cons.IH[OF r w1 ps(1,2)]
  have ih1: "supports (cellAt b' x y)
           = (if (x, y) \<in> set ps \<and> piece (cellAt b1 x y) \<noteq> NONE then coverageAt b1 x y
              else supports (cellAt b1 x y))"
    and ih2: "supportedBy (cellAt b' x y)
           = supportedBy (cellAt b1 x y)
             \<union> {newPointUnsafe u v | u v. (u, v) \<in> set ps \<and> piece (cellAt b1 u v) \<noteq> NONE
                   \<and> newPointUnsafe x y \<in> coverageAt b1 u v}"
    by blast+
  note st = settle_step_char[OF s Cons.prems(2) uv assms(5)]
  have sup: "supports (cellAt b' x y)
           = (if (x, y) \<in> set (a # ps) \<and> piece (cellAt b x y) \<noteq> NONE then coverageAt b x y
              else supports (cellAt b x y))"
  proof (cases "(x, y) = (u, v)")
    case True
    then have "(x, y) \<notin> set ps" using ps(3) by simp
    then show ?thesis
      unfolding ih1 st(1) using True by (simp add: a)
  next
    case False
    then show ?thesis
      unfolding ih1 st(1) cov[OF assms(5)] pc[OF assms(5)] by (auto simp: a)
  qed
  let ?S = "\<lambda>b ps. {newPointUnsafe u' v' | u' v'. (u', v') \<in> set ps \<and> piece (cellAt b u' v') \<noteq> NONE
                   \<and> newPointUnsafe x y \<in> coverageAt b u' v'}"
  have e1: "?S b1 ps = ?S b ps"
  proof (intro Collect_cong)
    fix q
    have "(u', v') \<in> set ps \<and> piece (cellAt b1 u' v') \<noteq> NONE \<and> newPointUnsafe x y \<in> coverageAt b1 u' v'
      \<longleftrightarrow> (u', v') \<in> set ps \<and> piece (cellAt b u' v') \<noteq> NONE \<and> newPointUnsafe x y \<in> coverageAt b u' v'"
      for u' v'
    proof (cases "(u', v') \<in> set ps")
      case True
      then have "(u', v') \<in> set positions" using ps(1) by blast
      then show ?thesis using cov[of u' v'] pc[of u' v'] by simp
    next
      case False
      then show ?thesis by simp
    qed
    then show "(\<exists>u' v'. q = newPointUnsafe u' v' \<and> (u', v') \<in> set ps \<and> piece (cellAt b1 u' v') \<noteq> NONE
                   \<and> newPointUnsafe x y \<in> coverageAt b1 u' v')
        \<longleftrightarrow> (\<exists>u' v'. q = newPointUnsafe u' v' \<and> (u', v') \<in> set ps \<and> piece (cellAt b u' v') \<noteq> NONE
                   \<and> newPointUnsafe x y \<in> coverageAt b u' v')"
      by simp
  qed
  have e2: "?S b (a # ps) = ?S b ps
      \<union> (if piece (cellAt b u v) \<noteq> NONE \<and> newPointUnsafe x y \<in> coverageAt b u v
         then {newPointUnsafe u v} else {})"
    unfolding a by auto
  have sby: "supportedBy (cellAt b' x y) = supportedBy (cellAt b x y) \<union> ?S b (a # ps)"
    unfolding ih2 st(2) e1 e2 by blast
  show ?case using sup sby by simp
qed

text \<open>A board is settled when settling it again changes nothing.\<close>

definition settled :: "Board \<Rightarrow> bool" where
  "settled b = (wf_board b \<and> settleSupportGraph b = Inr b)"

lemma same_occupancy_clear: "wf_board b \<Longrightarrow> same_occupancy (map (map clearSupport) b) b"
  using cellAt_clear by (auto simp: same_occupancy_def clearSupport_def)

lemma settle_char:
  assumes w: "wf_board b0" and s: "settleSupportGraph b0 = Inr b" and xy: "(x, y) \<in> set positions"
  shows "supports (cellAt b x y) = (if piece (cellAt b0 x y) \<noteq> NONE then coverageAt b0 x y else {})"
    and "supportedBy (cellAt b x y)
           = {newPointUnsafe u v | u v. (u, v) \<in> set positions \<and> piece (cellAt b0 u v) \<noteq> NONE
                \<and> newPointUnsafe x y \<in> coverageAt b0 u v}"
proof -
  let ?c = "map (map clearSupport) b0"
  have so: "same_occupancy ?c b0" using same_occupancy_clear[OF w] .
  have pc: "piece (cellAt ?c u v) = piece (cellAt b0 u v)" if "(u, v) \<in> set positions" for u v
    using so that by (auto simp: same_occupancy_def)
  have cov: "coverageAt ?c u v = coverageAt b0 u v" if "(u, v) \<in> set positions" for u v
    using coverageAt_same[OF so that] .
  have cl: "supports (cellAt ?c x y) = {}" "supportedBy (cellAt ?c x y) = {}"
    using cellAt_clear[OF w xy] by (simp_all add: clearSupport_def)
  from forE_settle_char[OF s[unfolded settleSupportGraph_def] wf_clear[OF w] subset_refl
      distinct_positions xy]
  have c1: "supports (cellAt b x y)
           = (if (x, y) \<in> set positions \<and> piece (cellAt ?c x y) \<noteq> NONE then coverageAt ?c x y
              else supports (cellAt ?c x y))"
    and c2: "supportedBy (cellAt b x y)
           = supportedBy (cellAt ?c x y)
             \<union> {newPointUnsafe u v | u v. (u, v) \<in> set positions \<and> piece (cellAt ?c u v) \<noteq> NONE
                   \<and> newPointUnsafe x y \<in> coverageAt ?c u v}"
    by blast+
  show "supports (cellAt b x y) = (if piece (cellAt b0 x y) \<noteq> NONE then coverageAt b0 x y else {})"
    unfolding c1 cl using xy pc[OF xy] cov[OF xy] by simp
  have "{newPointUnsafe u v | u v. (u, v) \<in> set positions \<and> piece (cellAt ?c u v) \<noteq> NONE
                   \<and> newPointUnsafe x y \<in> coverageAt ?c u v}
      = {newPointUnsafe u v | u v. (u, v) \<in> set positions \<and> piece (cellAt b0 u v) \<noteq> NONE
                \<and> newPointUnsafe x y \<in> coverageAt b0 u v}"
  proof (intro Collect_cong)
    fix q
    have "(u, v) \<in> set positions \<and> piece (cellAt ?c u v) \<noteq> NONE \<and> newPointUnsafe x y \<in> coverageAt ?c u v
      \<longleftrightarrow> (u, v) \<in> set positions \<and> piece (cellAt b0 u v) \<noteq> NONE \<and> newPointUnsafe x y \<in> coverageAt b0 u v"
      for u v
      using pc[of u v] cov[of u v] by (cases "(u, v) \<in> set positions") simp_all
    then show "(\<exists>u v. q = newPointUnsafe u v \<and> (u, v) \<in> set positions \<and> piece (cellAt ?c u v) \<noteq> NONE
                   \<and> newPointUnsafe x y \<in> coverageAt ?c u v)
        \<longleftrightarrow> (\<exists>u v. q = newPointUnsafe u v \<and> (u, v) \<in> set positions \<and> piece (cellAt b0 u v) \<noteq> NONE
                   \<and> newPointUnsafe x y \<in> coverageAt b0 u v)"
      by simp
  qed
  then show "supportedBy (cellAt b x y)
           = {newPointUnsafe u v | u v. (u, v) \<in> set positions \<and> piece (cellAt b0 u v) \<noteq> NONE
                \<and> newPointUnsafe x y \<in> coverageAt b0 u v}"
    unfolding c2 cl by simp
qed

lemma board_ext:
  assumes "wf_board b" "wf_board b'" "\<forall>(x, y) \<in> set positions. cellAt b x y = cellAt b' x y"
  shows "b = b'"
proof (rule nth_equalityI)
  show "length b = length b'" using assms(1,2) by (simp add: wf_board_def)
next
  fix i assume i: "i < length b"
  then have i8: "i < 8" using assms(1) by (simp add: wf_board_def)
  have l: "length (b ! i) = 8" "length (b' ! i) = 8"
    using assms(1,2) i8 by (auto simp: wf_board_def)
  show "b ! i = b' ! i"
  proof (rule nth_equalityI)
    show "length (b ! i) = length (b' ! i)" using l by simp
  next
    fix j assume "j < length (b ! i)"
    then have j8: "j < 8" using l by simp
    have "(int i, int j) \<in> set positions" using i8 j8 by (simp add: set_positions)
    with assms(3) have "cellAt b (int i) (int j) = cellAt b' (int i) (int j)" by blast
    then show "b ! i ! j = b' ! i ! j" by (simp add: cellAt_def)
  qed
qed

lemma forE_settle_closed:
  assumes "forE ps b settle_step = Inr b'" "wf_board b" "set ps \<subseteq> set positions"
    "(x, y) \<in> set ps"
  shows "piece (cellAt b x y) = NONE \<or> known_piece (piece (cellAt b x y))"
  using assms
proof (induction ps arbitrary: b)
  case Nil
  then show ?case by simp
next
  case (Cons a ps)
  obtain u v where a: "a = (u, v)" by (cases a)
  from Cons.prems(1) obtain b1 where s: "settle_step (u, v) b = Inr b1"
    and r: "forE ps b1 settle_step = Inr b'"
    by (auto simp: a split: sum.splits)
  have uv: "(u, v) \<in> set positions" using Cons.prems(3) a by simp
  show ?case
  proof (cases "(x, y) = (u, v)")
    case True
    then show ?thesis
      using s getCoverage_Inr_known by (auto simp: settle_step_def Let_def split: if_splits sum.splits)
  next
    case False
    then have in_ps: "(x, y) \<in> set ps" using Cons.prems(4) a by auto
    then have xy: "(x, y) \<in> set positions" using Cons.prems(3) by auto
    show ?thesis
      using Cons.IH[OF r settle_step_keeps(1)[OF s Cons.prems(2) uv uv] _ in_ps]
        settle_step_keeps(2)[OF s Cons.prems(2) uv xy] Cons.prems(3)
      by simp
  qed
qed

lemma settle_Inr_closed:
  assumes "wf_board b0" "settleSupportGraph b0 = Inr b"
  shows "closed_pieces b0" "closed_pieces b"
proof -
  have c: "piece (cellAt b0 x y) = NONE \<or> known_piece (piece (cellAt b0 x y))"
    if "(x, y) \<in> set positions" for x y
    using forE_settle_closed[OF assms(2)[unfolded settleSupportGraph_def] wf_clear[OF assms(1)]
        subset_refl that] cellAt_clear[OF assms(1) that]
    by (simp add: clearSupport_def)
  then show "closed_pieces b0" by (auto simp: closed_pieces_iff)
  have "piece (cellAt b x y) = NONE \<or> known_piece (piece (cellAt b x y))"
    if "(x, y) \<in> set positions" for x y
    using c[OF that] settle_keeps(2)[OF assms(2,1) that] by simp
  then show "closed_pieces b" by (auto simp: closed_pieces_iff)
qed

lemma settle_idem:
  assumes w: "wf_board b0" and s: "settleSupportGraph b0 = Inr b"
  shows "settled b"
proof -
  have wb: "wf_board b"
    using settle_keeps(1)[OF s w, of 0 0] by (simp add: set_positions)
  obtain b2 where s2: "settleSupportGraph b = Inr b2"
    using settle_ok[OF wb settle_Inr_closed(2)[OF w s]] by blast
  have wb2: "wf_board b2"
    using settle_keeps(1)[OF s2 wb, of 0 0] by (simp add: set_positions)
  have so: "same_occupancy b b0"
    using settle_keeps(2)[OF s w] by (auto simp: same_occupancy_def)
  have "cellAt b2 x y = cellAt b x y" if xy: "(x, y) \<in> set positions" for x y
  proof -
    have p: "piece (cellAt b2 x y) = piece (cellAt b x y)"
      using settle_keeps(2)[OF s2 wb xy] .
    have pc: "piece (cellAt b u v) = piece (cellAt b0 u v)" if "(u, v) \<in> set positions" for u v
      using so that by (auto simp: same_occupancy_def)
    have cov: "coverageAt b u v = coverageAt b0 u v" if "(u, v) \<in> set positions" for u v
      using coverageAt_same[OF so that] .
    have s1: "supports (cellAt b2 x y) = supports (cellAt b x y)"
      unfolding settle_char(1)[OF wb s2 xy] settle_char(1)[OF w s xy] pc[OF xy] cov[OF xy] ..
    have "{newPointUnsafe u v | u v. (u, v) \<in> set positions \<and> piece (cellAt b u v) \<noteq> NONE
                \<and> newPointUnsafe x y \<in> coverageAt b u v}
        = {newPointUnsafe u v | u v. (u, v) \<in> set positions \<and> piece (cellAt b0 u v) \<noteq> NONE
                \<and> newPointUnsafe x y \<in> coverageAt b0 u v}"
    proof (intro Collect_cong)
      fix q
      have "(u, v) \<in> set positions \<and> piece (cellAt b u v) \<noteq> NONE \<and> newPointUnsafe x y \<in> coverageAt b u v
        \<longleftrightarrow> (u, v) \<in> set positions \<and> piece (cellAt b0 u v) \<noteq> NONE \<and> newPointUnsafe x y \<in> coverageAt b0 u v"
        for u v
        using pc[of u v] cov[of u v] by (cases "(u, v) \<in> set positions") simp_all
      then show "(\<exists>u v. q = newPointUnsafe u v \<and> (u, v) \<in> set positions \<and> piece (cellAt b u v) \<noteq> NONE
                     \<and> newPointUnsafe x y \<in> coverageAt b u v)
          \<longleftrightarrow> (\<exists>u v. q = newPointUnsafe u v \<and> (u, v) \<in> set positions \<and> piece (cellAt b0 u v) \<noteq> NONE
                     \<and> newPointUnsafe x y \<in> coverageAt b0 u v)"
        by simp
    qed
    then have s3: "supportedBy (cellAt b2 x y) = supportedBy (cellAt b x y)"
      unfolding settle_char(2)[OF wb s2 xy] settle_char(2)[OF w s xy] .
    show ?thesis using p s1 s3 by (intro cell.equality) simp_all
  qed
  then have "b2 = b" using board_ext[OF wb2 wb] by blast
  then show ?thesis using s2 wb by (simp add: settled_def)
qed

text \<open>On a settled board the support sets are what the occupancy says.\<close>

lemma settled_char:
  assumes "settled b" "(x, y) \<in> set positions"
  shows "supports (cellAt b x y) = (if piece (cellAt b x y) \<noteq> NONE then coverageAt b x y else {})"
    and "supportedBy (cellAt b x y)
           = {newPointUnsafe u v | u v. (u, v) \<in> set positions \<and> piece (cellAt b u v) \<noteq> NONE
                \<and> newPointUnsafe x y \<in> coverageAt b u v}"
  using settle_char[OF _ _ assms(2), of b b] assms(1) by (simp_all add: settled_def)

text \<open>
  A board with a piece outside the closed set does not settle: \<^verbatim>\<open>settleSupportGraph\<close>
  returns the error of \<^verbatim>\<open>getCoverage\<close>, wrapped once.
\<close>

lemma forE_settle_error:
  "forE ps b settle_step = Inl e \<Longrightarrow> \<exists>pc. \<not> known_piece pc \<and> e = Wrapped (UnknownPieceCoverage pc)"
proof (induction ps arbitrary: b)
  case Nil
  then show ?case by simp
next
  case (Cons a ps)
  obtain x y where a: "a = (x, y)" by (cases a)
  show ?case
  proof (cases "settle_step (x, y) b")
    case (Inl e')
    then have "e' = e" using Cons.prems by (simp add: a)
    then show ?thesis
      using Inl
      by (auto simp: settle_step_def Let_def getCoverage_def known_piece_def
          split: if_splits sum.splits)
  next
    case (Inr b')
    then show ?thesis using Cons.prems Cons.IH[of b'] by (simp add: a)
  qed
qed

lemma settle_unknown_piece_error:
  assumes "wf_board b" "\<not> closed_pieces b"
  shows "\<exists>pc. \<not> known_piece pc \<and> settleSupportGraph b = Inl (Wrapped (UnknownPieceCoverage pc))"
proof (cases "settleSupportGraph b")
  case (Inl e)
  from forE_settle_error[OF Inl[unfolded settleSupportGraph_def]] Inl show ?thesis by auto
next
  case (Inr b')
  from settle_Inr_closed(1)[OF assms(1) Inr] assms(2) show ?thesis by simp
qed

section \<open>The results of \<^verbatim>\<open>reduce\<close>\<close>

text \<open>
  The loop of \<^verbatim>\<open>reduce\<close>, in pieces: the test that lets the loop get to the copy; the
  copy with the piece removed, settled; the body of the loop.
\<close>

definition removable :: "Board \<Rightarrow> int \<times> int \<Rightarrow> bool" where
  "removable b = (\<lambda>(x, y). piece (cellAt b x y) \<noteq> NONE \<and> \<not> contributes b (cellAt b x y))"

definition removePiece :: "Board \<Rightarrow> int \<times> int \<Rightarrow> error + Board" where
  "removePiece b = (\<lambda>(x, y).
     settleSupportGraph (setPiece (Board_copy b) (newPointUnsafe x y) NONE))"

definition reduce_body :: "Board \<Rightarrow> int \<times> int \<Rightarrow> Board list \<Rightarrow> error + Board list" where
  "reduce_body b xy result =
     (if removable b xy
      then (case removePiece b xy of
              Inl err \<Rightarrow> Inl (wrap err)
            | Inr newBoard \<Rightarrow>
                (case reduce newBoard of
                   Inl err \<Rightarrow> Inl (wrap err)
                 | Inr reduceResult \<Rightarrow> Inr (result @ reduceResult)))
      else Inr result)"

lemma reduce_unfold:
  "reduce b = (case forE positions [] (reduce_body b) of
                 Inl err \<Rightarrow> Inl err
               | Inr result \<Rightarrow> Inr (if result = [] then [b] else result))"
proof -
  have "(\<lambda>(x, y) result.
                let currCell = cellAt b x y in
                if piece currCell = NONE then Inr result
                else if contributes b currCell then Inr result
                else (case settleSupportGraph (setPiece (Board_copy b) (newPointUnsafe x y) NONE) of
                        Inl err \<Rightarrow> Inl (wrap err)
                      | Inr newBoard \<Rightarrow>
                          (case reduce newBoard of
                             Inl err \<Rightarrow> Inl (wrap err)
                           | Inr reduceResult \<Rightarrow> Inr (result @ reduceResult))))
      = reduce_body b"
    by (auto simp: fun_eq_iff reduce_body_def removable_def removePiece_def Let_def)
  then show ?thesis
    by (subst reduce.simps) simp
qed

lemma reduce_induct_removal [consumes 0, case_names step]:
  assumes "\<And>b. (\<And>xy nb. xy \<in> set positions \<Longrightarrow> removable b xy \<Longrightarrow> removePiece b xy = Inr nb \<Longrightarrow> P nb)
             \<Longrightarrow> P b"
  shows "P b"
proof (induction b rule: reduce.induct)
  case (1 b)
  show ?case
  proof (rule assms)
    fix xy nb
    assume "xy \<in> set positions" "removable b xy" "removePiece b xy = Inr nb"
    then show "P nb"
      using 1[where a = xy and x = "fst xy" and y = "snd xy" and ba = nb, OF _ _ refl]
      by (auto simp: removable_def removePiece_def case_prod_beta')
  qed
qed

text \<open>What the loop returns: the results of the removable positions, in scan order.\<close>

lemma forE_reduce_body:
  assumes "forE ps acc (reduce_body b) = Inr res"
  shows "\<exists>rss. length rss = length (filter (removable b) ps)
           \<and> (\<forall>i < length rss. \<exists>nb. removePiece b (filter (removable b) ps ! i) = Inr nb
                                    \<and> reduce nb = Inr (rss ! i))
           \<and> res = acc @ concat rss"
  using assms
proof (induction ps arbitrary: acc)
  case Nil
  then show ?case by simp
next
  case (Cons xy ps)
  show ?case
  proof (cases "removable b xy")
    case False
    then have "reduce_body b xy acc = Inr acc"
      by (simp add: reduce_body_def)
    then have "forE ps acc (reduce_body b) = Inr res"
      using Cons.prems by simp
    from Cons.IH[OF this] show ?thesis using False by simp
  next
    case True
    from Cons.prems obtain acc' where st: "reduce_body b xy acc = Inr acc'"
      and rest': "forE ps acc' (reduce_body b) = Inr res"
      by (auto split: sum.splits)
    from st True obtain nb rr where nb: "removePiece b xy = Inr nb"
      and rr: "reduce nb = Inr rr" and acc': "acc' = acc @ rr"
      by (auto simp: reduce_body_def split: sum.splits)
    have rest: "forE ps (acc @ rr) (reduce_body b) = Inr res"
      using rest' acc' by simp
    from Cons.IH[OF rest] obtain rss where rss: "length rss = length (filter (removable b) ps)"
      "\<forall>i < length rss. \<exists>nb. removePiece b (filter (removable b) ps ! i) = Inr nb
                                    \<and> reduce nb = Inr (rss ! i)"
      "res = (acc @ rr) @ concat rss"
      by blast
    have "\<forall>i < length (rr # rss). \<exists>nb. removePiece b (filter (removable b) (xy # ps) ! i) = Inr nb
                                    \<and> reduce nb = Inr ((rr # rss) ! i)"
      using True nb rr rss(2) by (auto simp: nth_Cons split: nat.splits)
    then show ?thesis
      using True rss(1,3) by (intro exI[of _ "rr # rss"]) simp
  qed
qed

lemma reduce_nonempty: "reduce b = Inr rs \<Longrightarrow> rs \<noteq> []"
  by (auto simp: reduce_unfold split: sum.splits if_splits)

lemma reduce_structure:
  assumes "reduce b = Inr rs"
  shows "\<exists>rss. length rss = length (filter (removable b) positions)
           \<and> (\<forall>i < length rss. \<exists>nb. removePiece b (filter (removable b) positions ! i) = Inr nb
                                    \<and> reduce nb = Inr (rss ! i))
           \<and> rs = (if filter (removable b) positions = [] then [b] else concat rss)"
proof -
  from assms obtain res where f: "forE positions [] (reduce_body b) = Inr res"
    and rs: "rs = (if res = [] then [b] else res)"
    by (auto simp: reduce_unfold split: sum.splits)
  from forE_reduce_body[OF f] obtain rss where
    rss: "length rss = length (filter (removable b) positions)"
      "\<forall>i < length rss. \<exists>nb. removePiece b (filter (removable b) positions ! i) = Inr nb
                                    \<and> reduce nb = Inr (rss ! i)"
      "res = concat rss"
    by auto
  have "res \<noteq> []" if "filter (removable b) positions \<noteq> []"
  proof -
    from that rss(1) have "0 < length rss" by simp
    with rss(2) obtain nb where "reduce nb = Inr (rss ! 0)" by blast
    then have "rss ! 0 \<noteq> []" using reduce_nonempty by blast
    then show ?thesis
      using \<open>0 < length rss\<close> rss(3) by (cases rss) auto
  qed
  moreover have "res = []" if "filter (removable b) positions = []"
    using that rss(1,3) by simp
  ultimately show ?thesis
    using rss rs by (intro exI[of _ rss]) auto
qed

lemma reduce_results:
  assumes "reduce b = Inr rs" "r \<in> set rs"
  shows "r = b \<or> (\<exists>xy nb rr. xy \<in> set positions \<and> removable b xy \<and> removePiece b xy = Inr nb
                    \<and> reduce nb = Inr rr \<and> r \<in> set rr)"
proof -
  from reduce_structure[OF assms(1)] obtain rss where
    rss: "length rss = length (filter (removable b) positions)"
      "\<forall>i < length rss. \<exists>nb. removePiece b (filter (removable b) positions ! i) = Inr nb
                                    \<and> reduce nb = Inr (rss ! i)"
      "rs = (if filter (removable b) positions = [] then [b] else concat rss)"
    by blast
  show ?thesis
  proof (cases "filter (removable b) positions = []")
    case True
    then show ?thesis using rss(3) assms(2) by simp
  next
    case False
    then have "r \<in> set (concat rss)" using rss(3) assms(2) by simp
    then obtain rr where "rr \<in> set rss" "r \<in> set rr" by auto
    then obtain i where i: "i < length rss" "r \<in> set (rss ! i)"
      by (metis in_set_conv_nth)
    with rss(2) obtain nb where nb: "removePiece b (filter (removable b) positions ! i) = Inr nb"
      "reduce nb = Inr (rss ! i)" by blast
    have "filter (removable b) positions ! i \<in> set (filter (removable b) positions)"
      using i(1) rss(1) by (intro nth_mem) simp
    then have "filter (removable b) positions ! i \<in> set positions"
      "removable b (filter (removable b) positions ! i)" by auto
    then show ?thesis using nb i(2) by blast
  qed
qed

text \<open>A property that holds of a board and itself, and passes through one removal, holds
  between a board and every result of its reduction.\<close>

lemma reduce_results_induct:
  assumes red: "reduce b = Inr rs" "r \<in> set rs" and inv: "I b"
    and base: "\<And>b. I b \<Longrightarrow> P b b"
    and keep: "\<And>b xy nb. I b \<Longrightarrow> xy \<in> set positions \<Longrightarrow> removable b xy \<Longrightarrow> removePiece b xy = Inr nb \<Longrightarrow> I nb"
    and pass: "\<And>b xy nb r. I b \<Longrightarrow> xy \<in> set positions \<Longrightarrow> removable b xy \<Longrightarrow> removePiece b xy = Inr nb
                 \<Longrightarrow> P nb r \<Longrightarrow> P b r"
  shows "P b r"
  using red inv
proof (induction b arbitrary: rs rule: reduce_induct_removal)
  case (step b)
  from reduce_results[OF step.prems(1,2)] show ?case
  proof
    assume "r = b"
    then show ?thesis using base[OF step.prems(3)] by simp
  next
    assume "\<exists>xy nb rr. xy \<in> set positions \<and> removable b xy \<and> removePiece b xy = Inr nb
                    \<and> reduce nb = Inr rr \<and> r \<in> set rr"
    then obtain xy nb rr where x: "xy \<in> set positions" "removable b xy" "removePiece b xy = Inr nb"
      "reduce nb = Inr rr" "r \<in> set rr" by blast
    have "P nb r"
      using step.IH[OF x(1,2,3) x(4,5) keep[OF step.prems(3) x(1,2,3)]] .
    then show ?thesis using pass[OF step.prems(3) x(1,2,3)] by blast
  qed
qed

lemma removePiece_occupancy:
  assumes xy: "(x, y) \<in> set positions" and r: "removePiece b (x, y) = Inr nb"
  shows "wf_board nb"
    and "(u, v) \<in> set positions \<Longrightarrow>
         piece (cellAt nb u v) = (if (u, v) = (x, y) then NONE else piece (cellAt b u v))"
    and "settled nb"
proof -
  let ?c = "Board_copy b"
  let ?d = "setPiece ?c (newPointUnsafe x y) NONE"
  have sp: "?d = setCell ?c x y ((cellAt ?c x y)\<lparr>piece := NONE\<rparr>)"
    unfolding setPiece_def getCell_def newPointUnsafe_coords(3,4)[OF xy] ..
  have w: "wf_board ?d"
    unfolding sp by (intro wf_setCell Board_copy_wf)
  have st: "settleSupportGraph ?d = Inr nb"
    using r by (simp add: removePiece_def)
  show "wf_board nb"
    using settle_keeps(1)[OF st w xy] .
  show "settled nb"
    using settle_idem[OF w st] .
  show "piece (cellAt nb u v) = (if (u, v) = (x, y) then NONE else piece (cellAt b u v))"
    if "(u, v) \<in> set positions"
    using settle_keeps(2)[OF st w that] cellAt_setCell[OF Board_copy_wf xy that]
      cellAt_Board_copy[OF that]
    by (auto simp: sp cell_copy_def)
qed

lemma removePiece_ok:
  assumes "closed_pieces b" "(x, y) \<in> set positions"
  shows "\<exists>nb. removePiece b (x, y) = Inr nb \<and> closed_pieces nb"
proof -
  let ?c = "Board_copy b"
  let ?d = "setPiece ?c (newPointUnsafe x y) NONE"
  have sp: "?d = setCell ?c x y ((cellAt ?c x y)\<lparr>piece := NONE\<rparr>)"
    unfolding setPiece_def getCell_def newPointUnsafe_coords(3,4)[OF assms(2)] ..
  have w: "wf_board ?d"
    unfolding sp by (intro wf_setCell Board_copy_wf)
  have "piece (cellAt ?d u v) = NONE \<or> known_piece (piece (cellAt ?d u v))"
    if "(u, v) \<in> set positions" for u v
    using cellAt_setCell[OF Board_copy_wf assms(2) that] cellAt_Board_copy[OF that] assms(1) that
    by (auto simp: sp cell_copy_def closed_pieces_iff)
  then have "closed_pieces ?d" by (auto simp: closed_pieces_iff)
  from settle_ok[OF w this] obtain nb where nb: "settleSupportGraph ?d = Inr nb" by blast
  then show ?thesis
    using settle_Inr_closed(2)[OF w nb] by (auto simp: removePiece_def)
qed

lemma forE_total:
  "(\<And>a s. a \<in> set ps \<Longrightarrow> \<exists>s'. f a s = Inr s') \<Longrightarrow> \<exists>s'. forE ps s f = Inr s'"
proof (induction ps arbitrary: s)
  case Nil
  then show ?case by simp
next
  case (Cons a ps)
  from Cons.prems[of a s] obtain s1 where "f a s = Inr s1" by auto
  moreover from Cons.IH[of s1] Cons.prems obtain s2 where "forE ps s1 f = Inr s2" by auto
  ultimately show ?case by simp
qed

lemma reduce_total: "closed_pieces b \<Longrightarrow> \<exists>rs. reduce b = Inr rs"
proof (induction b rule: reduce_induct_removal)
  case (step b)
  have "\<exists>s'. reduce_body b xy s = Inr s'" if "xy \<in> set positions" for xy s
  proof (cases "removable b xy")
    case False
    then show ?thesis by (simp add: reduce_body_def)
  next
    case True
    obtain x y where e: "xy = (x, y)" by (cases xy)
    from removePiece_ok[OF step.prems that[unfolded e]] obtain nb where
      nb: "removePiece b xy = Inr nb" "closed_pieces nb" by (auto simp: e)
    from step.IH[OF that True nb] obtain rr where "reduce nb = Inr rr" by blast
    then show ?thesis using True nb(1) by (simp add: reduce_body_def)
  qed
  from forE_total[of positions "reduce_body b" "[]", OF this] show ?case
    by (auto simp: reduce_unfold)
qed

lemma settled_closed: "settled b \<Longrightarrow> closed_pieces b"
  using settle_Inr_closed(1)[of b b] by (simp add: settled_def)

text \<open>The board rebuilt from a compact state (an empty array if rebuilding fails).\<close>

definition rebuilt :: "MinimalBoard \<Rightarrow> Board" where
  "rebuilt m = (case RebuildBoard m of Inl err \<Rightarrow> newBoardArray | Inr b \<Rightarrow> b)"

definition occupancy :: "Board \<Rightarrow> Piece list" where
  "occupancy b = map (\<lambda>(x, y). piece (cellAt b x y)) positions"

definition three_pawns :: MinimalBoard where
  "three_pawns = zeroMinimalBoard\<lparr>board := (replicate 64 NONE)[0 := PAWN, 2 := PAWN, 4 := PAWN]\<rparr>"

definition rook_two_pawns :: MinimalBoard where
  "rook_two_pawns = zeroMinimalBoard\<lparr>board := (replicate 64 NONE)[0 := ROOK, 1 := PAWN, 3 := PAWN]\<rparr>"

lemma settled_three_pawns: "settled (rebuilt three_pawns)"
  by code_simp

lemma settled_rook_two_pawns: "settled (rebuilt rook_two_pawns)"
  by code_simp



section \<open>Coverage under \<^verbatim>\<open>reduce\<close>\<close>

lemma reached_mono:
  assumes "emptier b b'" "valid_point p" "reached b p d k"
  shows "reached b' p d k"
proof -
  have ob: "on_board p d k" using assms(3) by (simp add: reached_def)
  have "isEmpty b' (ray_cell p d j)" if j: "j \<in> {1..<k}" for j
  proof -
    have "on_board p d j"
      using on_board_mono[OF ob assms(2), of j] j by auto
    then have "valid_point (ray_cell p d j)" using ray_cell_coords(1) by blast
    moreover have "isEmpty b (ray_cell p d j)" using assms(3) j by (simp add: reached_def)
    ultimately show ?thesis using isEmpty_emptier[OF assms(1)] by blast
  qed
  then show ?thesis using ob by (simp add: reached_def)
qed

lemma ray_spec_mono: "emptier b b' \<Longrightarrow> valid_point p \<Longrightarrow> ray_spec b p d \<subseteq> ray_spec b' p d"
  using reached_mono by (auto simp: ray_spec_def)

lemma sliding_coverage_spec:
  assumes "valid_point p"
  shows "bishopCoverage b p = (\<Union>d \<in> {Diag_pp, Diag_mp, Diag_pm, Diag_mm}. ray_spec b p d)"
    and "rookCoverage b p = (\<Union>d \<in> {Line_p0, Line_0p, Line_m0, Line_0m}. ray_spec b p d)"
  by (auto simp: bishopCoverage_def rookCoverage_def ray_eq_spec[OF assms])

lemma getCoverage_mono:
  assumes "emptier b b'" "valid_point p" "getCoverage b p pc = Inr c"
  shows "\<exists>c'. getCoverage b' p pc = Inr c' \<and> c \<subseteq> c'"
proof -
  have "bishopCoverage b p \<subseteq> bishopCoverage b' p" "rookCoverage b p \<subseteq> rookCoverage b' p"
    unfolding sliding_coverage_spec[OF assms(2)]
    using ray_spec_mono[OF assms(1,2)] by blast+
  then show ?thesis
    using assms(3) by (auto simp: getCoverage_def queenCoverage_def split: if_splits)
qed

lemma coverageAt_mono:
  assumes "emptier b b'" "(u, v) \<in> set positions" "piece (cellAt b' u v) = piece (cellAt b u v)"
  shows "coverageAt b u v \<subseteq> coverageAt b' u v"
proof (cases "getCoverage b (newPointUnsafe u v) (piece (cellAt b u v))")
  case (Inl e)
  then show ?thesis by (simp add: coverageAt_def)
next
  case (Inr c)
  from getCoverage_mono[OF assms(1) newPointUnsafe_coords(2)[OF assms(2)] Inr] show ?thesis
    using Inr assms(3) by (auto simp: coverageAt_def)
qed

text \<open>The covered cells of a board, and their number.\<close>

definition covered :: "Board \<Rightarrow> (int \<times> int) set" where
  "covered b = {(x, y) \<in> set positions. supportedBy (cellAt b x y) \<noteq> {}}"

lemma fold_count:
  "fold (\<lambda>a result. if P a then result + 1 else result) xs (n :: int) = n + int (length (filter P xs))"
  by (induction xs arbitrary: n) auto

lemma GetCoverageLevel_count:
  "GetCoverageLevel b
     = int (length (filter (\<lambda>(x, y). card (supportedBy (cellAt b x y)) > 0) positions))"
  using fold_count[of "\<lambda>(x, y). card (supportedBy (cellAt b x y)) > 0" positions 0]
  by (simp add: GetCoverageLevel_def case_prod_beta')

lemma settled_finite:
  assumes "settled b" "(x, y) \<in> set positions"
  shows "finite (supportedBy (cellAt b x y))"
proof -
  have "supportedBy (cellAt b x y) \<subseteq> (\<lambda>(u, v). newPointUnsafe u v) ` set positions"
    unfolding settled_char(2)[OF assms] by auto
  then show ?thesis by (rule finite_subset) simp
qed

lemma GetCoverageLevel_covered:
  assumes "settled b"
  shows "GetCoverageLevel b = int (card (covered b))"
proof -
  have "filter (\<lambda>(x, y). card (supportedBy (cellAt b x y)) > 0) positions
      = filter (\<lambda>(x, y). supportedBy (cellAt b x y) \<noteq> {}) positions"
    using settled_finite[OF assms] by (intro filter_cong) (auto simp: card_gt_0_iff)
  moreover have "{a. case a of (x, y) \<Rightarrow> supportedBy (cellAt b x y) \<noteq> {}} \<inter> set positions = covered b"
    by (auto simp: covered_def)
  ultimately show ?thesis
    by (simp add: GetCoverageLevel_count distinct_length_filter[OF distinct_positions])
qed

lemma covered_iff:
  assumes "settled b" "(x, y) \<in> set positions"
  shows "(x, y) \<in> covered b \<longleftrightarrow>
           (\<exists>u v. (u, v) \<in> set positions \<and> piece (cellAt b u v) \<noteq> NONE
                  \<and> newPointUnsafe x y \<in> coverageAt b u v)"
proof -
  have "(x, y) \<in> covered b \<longleftrightarrow> supportedBy (cellAt b x y) \<noteq> {}"
    using assms(2) by (simp add: covered_def)
  also have "\<dots> \<longleftrightarrow> (\<exists>u v. (u, v) \<in> set positions \<and> piece (cellAt b u v) \<noteq> NONE
                  \<and> newPointUnsafe x y \<in> coverageAt b u v)"
    unfolding settled_char(2)[OF assms] by blast
  finally show ?thesis .
qed

text \<open>Removing a removable piece from a settled board uncovers nothing.\<close>

lemma removePiece_covered:
  assumes sb: "settled b" and xy: "(x, y) \<in> set positions" and rm: "removable b (x, y)"
    and r: "removePiece b (x, y) = Inr nb"
  shows "covered b \<subseteq> covered nb"
proof
  fix q assume q: "q \<in> covered b"
  obtain x' y' where e: "q = (x', y')" by (cases q)
  have q_pos: "(x', y') \<in> set positions" using q by (simp add: covered_def e)
  note occ = removePiece_occupancy[OF xy r]
  have em: "emptier b nb"
    using occ(2) by (auto simp: emptier_def)
  have other: "(x', y') \<in> covered nb"
    if uv: "(u, v) \<in> set positions" "piece (cellAt b u v) \<noteq> NONE"
      "newPointUnsafe x' y' \<in> coverageAt b u v" "(u, v) \<noteq> (x, y)" for u v
  proof -
    have p: "piece (cellAt nb u v) = piece (cellAt b u v)"
      using occ(2)[OF uv(1)] uv(4) by auto
    have "newPointUnsafe x' y' \<in> coverageAt nb u v"
      using coverageAt_mono[OF em uv(1) p] uv(3) by blast
    moreover have "piece (cellAt nb u v) \<noteq> NONE" using p uv(2) by simp
    ultimately have "\<exists>u v. (u, v) \<in> set positions \<and> piece (cellAt nb u v) \<noteq> NONE
                  \<and> newPointUnsafe x' y' \<in> coverageAt nb u v"
      using uv(1) by blast
    then show ?thesis
      using covered_iff[OF occ(3) q_pos] by blast
  qed
  from q obtain u v where uv: "(u, v) \<in> set positions" "piece (cellAt b u v) \<noteq> NONE"
    "newPointUnsafe x' y' \<in> coverageAt b u v"
    using covered_iff[OF sb q_pos] by (auto simp: e)
  show "q \<in> covered nb"
  proof (cases "(u, v) = (x, y)")
    case False
    then show ?thesis using other[OF uv] by (simp add: e)
  next
    case True
    have sup: "newPointUnsafe x' y' \<in> supports (cellAt b x y)"
      using uv(2,3) True settled_char(1)[OF sb xy] by simp
    have nc: "\<not> contributes b (cellAt b x y)"
      using rm by (simp add: removable_def)
    have c1: "card (supportedBy (cellAt b x' y')) \<noteq> 1"
      using nc sup getCell_newPointUnsafe[OF q_pos] by (auto simp: contributes_def)
    have mem: "newPointUnsafe x y \<in> supportedBy (cellAt b x' y')"
      unfolding settled_char(2)[OF sb q_pos] using uv True by auto
    have "\<exists>p2 \<in> supportedBy (cellAt b x' y'). p2 \<noteq> newPointUnsafe x y"
    proof (rule ccontr)
      assume "\<not> ?thesis"
      then have "supportedBy (cellAt b x' y') = {newPointUnsafe x y}" using mem by blast
      then show False using c1 by simp
    qed
    then obtain p2 where p2: "p2 \<in> supportedBy (cellAt b x' y')" "p2 \<noteq> newPointUnsafe x y"
      by blast
    from p2(1) have "\<exists>u v. p2 = newPointUnsafe u v \<and> (u, v) \<in> set positions
        \<and> piece (cellAt b u v) \<noteq> NONE \<and> newPointUnsafe x' y' \<in> coverageAt b u v"
      unfolding settled_char(2)[OF sb q_pos] by simp
    then obtain u2 v2 where uv2: "(u2, v2) \<in> set positions" "piece (cellAt b u2 v2) \<noteq> NONE"
      "newPointUnsafe x' y' \<in> coverageAt b u2 v2" "p2 = newPointUnsafe u2 v2"
      by blast
    have "(u2, v2) \<noteq> (x, y)" using p2(2) uv2(4) by auto
    then show ?thesis using other[OF uv2(1,2,3)] by (simp add: e)
  qed
qed

text \<open>
  Claim C3 fails as stated: on the board with a rook on (0,0) and pawns on (0,1) and (0,3)
  the pawn on (0,1) is removable, and without it the rook's ray along row 0 runs on to the
  other pawn. The coverage level goes from 10 to 12.
\<close>

theorem reduce_coverage_level_counterexample:
  "GetCoverageLevel (rebuilt rook_two_pawns) = 10
   \<and> map_sum id (map GetCoverageLevel) (reduce (rebuilt rook_two_pawns)) = Inr [12]"
  by code_simp

text \<open>
  Claim C3, amended. On every settled board \<^verbatim>\<open>reduce\<close> returns, and it never lowers the
  coverage: every cell covered on the input is covered on every board of the result, so
  the coverage level of each result is at least the input's. (It can be higher: removing a
  piece can open the ray of a sliding piece.)
\<close>

theorem reduce_keeps_coverage:
  assumes "settled b"
  shows "\<exists>rs. reduce b = Inr rs
           \<and> (\<forall>r \<in> set rs. covered b \<subseteq> covered r \<and> GetCoverageLevel b \<le> GetCoverageLevel r)"
proof -
  from reduce_total[OF settled_closed[OF assms]] obtain rs where rs: "reduce b = Inr rs" ..
  have "settled r \<and> covered b \<subseteq> covered r" if r: "r \<in> set rs" for r
  proof (rule reduce_results_induct[OF rs r, where I = settled
        and P = "\<lambda>b r. settled r \<and> covered b \<subseteq> covered r"])
    show "settled b" by fact
  next
    fix b :: Board and xy nb
    assume a: "xy \<in> set positions" "removePiece b xy = Inr nb"
    obtain x y where e: "xy = (x, y)" by (cases xy)
    show "settled nb"
      using removePiece_occupancy(3)[OF a(1)[unfolded e] a(2)[unfolded e]] .
  next
    fix b xy nb r
    assume a: "settled b" "xy \<in> set positions" "removable b xy" "removePiece b xy = Inr nb"
      and p: "settled r \<and> covered nb \<subseteq> covered r"
    obtain x y where e: "xy = (x, y)" by (cases xy)
    have "covered b \<subseteq> covered nb"
      using removePiece_covered[OF a(1) a(2)[unfolded e] a(3)[unfolded e] a(4)[unfolded e]] .
    then show "settled r \<and> covered b \<subseteq> covered r"
      using p by blast
  next
    fix b :: Board
    assume "settled b"
    then show "settled b \<and> covered b \<subseteq> covered b" by simp
  qed
  moreover have "GetCoverageLevel b \<le> GetCoverageLevel r" if "settled r" "covered b \<subseteq> covered r" for r
  proof -
    have "covered r \<subseteq> set positions" by (auto simp: covered_def)
    then have "finite (covered r)" by (rule finite_subset) simp
    then have "card (covered b) \<le> card (covered r)" using that(2) by (rule card_mono)
    then show ?thesis
      unfolding GetCoverageLevel_covered[OF assms] GetCoverageLevel_covered[OF that(1)] by simp
  qed
  ultimately have "\<forall>r \<in> set rs. covered b \<subseteq> covered r \<and> GetCoverageLevel b \<le> GetCoverageLevel r"
    by blast
  then show ?thesis using rs by blast
qed

theorem reduce_keeps_coverage_witness:
  "settled (rebuilt rook_two_pawns)
   \<and> (\<exists>rs. reduce (rebuilt rook_two_pawns) = Inr rs
         \<and> (\<forall>r \<in> set rs. covered (rebuilt rook_two_pawns) \<subseteq> covered r
               \<and> GetCoverageLevel (rebuilt rook_two_pawns) \<le> GetCoverageLevel r))"
  using reduce_keeps_coverage[OF settled_rook_two_pawns] settled_rook_two_pawns by blast

section \<open>The branches of \<^verbatim>\<open>reduce\<close>\<close>

lemma removable_settled:
  assumes sb: "settled b" and xy: "(x, y) \<in> set positions"
  shows "removable b (x, y) \<longleftrightarrow>
           piece (cellAt b x y) \<noteq> NONE
           \<and> (\<forall>q \<in> supports (cellAt b x y). \<exists>p' \<in> supportedBy (getCell b q). p' \<noteq> newPointUnsafe x y)"
proof (cases "piece (cellAt b x y) = NONE")
  case True
  then show ?thesis by (simp add: removable_def)
next
  case False
  have one: "card (supportedBy (getCell b q)) = 1
               \<longleftrightarrow> \<not> (\<exists>p' \<in> supportedBy (getCell b q). p' \<noteq> newPointUnsafe x y)"
    if q: "q \<in> supports (cellAt b x y)" for q
  proof -
    have qc: "q \<in> coverageAt b x y"
      using q False settled_char(1)[OF sb xy] by simp
    then obtain c where "getCoverage b (newPointUnsafe x y) (piece (cellAt b x y)) = Inr c" "q \<in> c"
      by (auto simp: coverageAt_def split: sum.splits)
    then have vq: "valid_point q" using getCoverage_valid by blast
    let ?qx = "point_x q" and ?qy = "point_y q"
    have qpos: "(?qx, ?qy) \<in> set positions" and qpt: "newPointUnsafe ?qx ?qy = q"
      using valid_point_coords[OF vq] by simp_all
    have gc: "getCell b q = cellAt b ?qx ?qy" by (simp add: getCell_def)
    have mem: "newPointUnsafe x y \<in> supportedBy (getCell b q)"
      unfolding gc settled_char(2)[OF sb qpos] qpt using xy False qc by blast
    have fin: "finite (supportedBy (getCell b q))"
      unfolding gc using settled_finite[OF sb qpos] .
    show ?thesis
    proof
      assume "card (supportedBy (getCell b q)) = 1"
      then obtain a where "supportedBy (getCell b q) = {a}" by (auto simp: card_1_singleton_iff)
      then show "\<not> (\<exists>p' \<in> supportedBy (getCell b q). p' \<noteq> newPointUnsafe x y)"
        using mem by auto
    next
      assume "\<not> (\<exists>p' \<in> supportedBy (getCell b q). p' \<noteq> newPointUnsafe x y)"
      then have "supportedBy (getCell b q) = {newPointUnsafe x y}" using mem by blast
      then show "card (supportedBy (getCell b q)) = 1" by simp
    qed
  qed
  show ?thesis
    using False one by (auto simp: removable_def contributes_def)
qed

text \<open>
  Claim C2 fails as stated: the loop of \<^verbatim>\<open>reduce\<close> has no \<^verbatim>\<open>break\<close> after the first
  removable piece. On the board with pawns on (0,0), (0,2) and (0,4) the pawns on (0,0) and
  (0,2) are both removable; the call returns one board without the first and one board
  without the second, which still holds the first.
\<close>

theorem reduce_one_branch_counterexample:
  "filter (removable (rebuilt three_pawns)) positions = [(0, 0), (0, 2)]
   \<and> map_sum id (map occupancy) (reduce (rebuilt three_pawns))
       = Inr [(replicate 64 NONE)[2 := PAWN, 4 := PAWN], (replicate 64 NONE)[0 := PAWN, 4 := PAWN]]"
  by code_simp

text \<open>
  Claim C2, amended. On a settled board a piece is removable iff every cell it supports is
  supported by some other piece as well. \<^verbatim>\<open>reduce\<close> makes one removal branch for every
  removable piece of the board, in scan order: it removes that piece from a copy, settles
  the copy and reduces it, and returns the results of all branches, one after the other. A
  board with no removable piece returns itself as the sole result.
\<close>

theorem reduce_branches_on_every_removable_piece:
  assumes "settled b"
  shows "(\<forall>(x, y) \<in> set positions.
            removable b (x, y) \<longleftrightarrow>
              piece (cellAt b x y) \<noteq> NONE
              \<and> (\<forall>q \<in> supports (cellAt b x y).
                    \<exists>p' \<in> supportedBy (getCell b q). p' \<noteq> newPointUnsafe x y))
       \<and> (\<exists>rs rss. reduce b = Inr rs
             \<and> length rss = length (filter (removable b) positions)
             \<and> (\<forall>i < length rss. \<exists>nb. removePiece b (filter (removable b) positions ! i) = Inr nb
                                      \<and> reduce nb = Inr (rss ! i))
             \<and> rs = (if filter (removable b) positions = [] then [b] else concat rss))"
proof -
  from reduce_total[OF settled_closed[OF assms]] obtain rs where rs: "reduce b = Inr rs" ..
  from reduce_structure[OF rs] rs removable_settled[OF assms] show ?thesis
    by blast
qed

theorem reduce_branches_on_every_removable_piece_witness:
  "settled (rebuilt three_pawns)
   \<and> (\<exists>rs rss. reduce (rebuilt three_pawns) = Inr rs
         \<and> length rss = length (filter (removable (rebuilt three_pawns)) positions)
         \<and> rs = (if filter (removable (rebuilt three_pawns)) positions = []
                 then [rebuilt three_pawns] else concat rss))"
  using reduce_branches_on_every_removable_piece[OF settled_three_pawns] settled_three_pawns
  by blast

section \<open>Expansion on the closed piece set\<close>

text \<open>
  On a board whose pieces all belong to the piece set, no step of \<^verbatim>\<open>ProposeBoards\<close>
  returns an error, whatever heuristic is passed, as long as the heuristic returns.
\<close>

lemma reduce_results_closed:
  assumes "closed_pieces b" "reduce b = Inr rs" "r \<in> set rs"
  shows "closed_pieces r"
proof (rule reduce_results_induct[OF assms(2,3), where I = closed_pieces
      and P = "\<lambda>b r. closed_pieces r"])
  show "closed_pieces b" by fact
next
  fix b xy nb
  assume a: "closed_pieces b" "xy \<in> set positions" "removePiece b xy = Inr nb"
  obtain x y where e: "xy = (x, y)" by (cases xy)
  from removePiece_ok[OF a(1) a(2)[unfolded e]] a(3) show "closed_pieces nb"
    by (auto simp: e)
qed

lemma heuristic_ok: "closed_pieces b \<Longrightarrow> \<exists>v. heuristic rnd b = Inr v"
  using Board_Score_closed[of b] by (simp add: heuristic_def Let_def)

lemma getMinimalBoard_ok:
  assumes "closed_pieces b" "\<exists>v. h b = Inr v"
  shows "\<exists>m. getMinimalBoard h b = Inr m"
  using assms Board_Score_closed[of b] by (auto simp: getMinimalBoard_def)

lemma getAllCoverage_ok: "\<exists>coverages. getAllCoverage b p = Inr coverages
    \<and> (\<forall>(pc, cov) \<in> set coverages. known_piece pc)"
proof -
  have "\<exists>res'. forE pcs res (\<lambda>pc result. case getCoverage b p pc of
                       Inl err \<Rightarrow> Inl (wrap err)
                     | Inr coverage \<Rightarrow> Inr (result @ [(pc, coverage)])) = Inr res'
         \<and> (\<forall>(pc, cov) \<in> set res'. known_piece pc)"
    if "\<forall>pc \<in> set pcs. known_piece pc" "\<forall>(pc, cov) \<in> set res. known_piece pc" for pcs res
    using that
  proof (induction pcs arbitrary: res)
    case Nil
    then show ?case by simp
  next
    case (Cons pc pcs)
    obtain cov where c: "getCoverage b p pc = Inr cov"
      using getCoverage_known[of pc b p] Cons.prems(1) by auto
    have "\<forall>(pc, cov) \<in> set (res @ [(pc, cov)]). known_piece pc"
      using Cons.prems by auto
    from Cons.IH[OF _ this] Cons.prems(1) show ?case
      by (simp add: c)
  qed
  from this[of "[PAWN, KNIGHT, ROOK, BISHOP, QUEEN]" "[]"] show ?thesis
    by (simp add: getAllCoverage_def known_piece_def)
qed

lemma setPiece_closed:
  assumes "closed_pieces b" "(x, y) \<in> set positions" "known_piece pc"
  shows "wf_board (setPiece (Board_copy b) (newPointUnsafe x y) pc)"
    "closed_pieces (setPiece (Board_copy b) (newPointUnsafe x y) pc)"
proof -
  let ?c = "Board_copy b"
  let ?d = "setPiece ?c (newPointUnsafe x y) pc"
  have sp: "?d = setCell ?c x y ((cellAt ?c x y)\<lparr>piece := pc\<rparr>)"
    unfolding setPiece_def getCell_def newPointUnsafe_coords(3,4)[OF assms(2)] ..
  show "wf_board ?d"
    unfolding sp by (intro wf_setCell Board_copy_wf)
  have "piece (cellAt ?d u v) = NONE \<or> known_piece (piece (cellAt ?d u v))"
    if "(u, v) \<in> set positions" for u v
    using cellAt_setCell[OF Board_copy_wf assms(2) that] cellAt_Board_copy[OF that] assms(1,3) that
    by (auto simp: sp cell_copy_def closed_pieces_iff)
  then show "closed_pieces ?d" by (auto simp: closed_pieces_iff)
qed

lemma newPoint_positions:
  "(x, y) \<in> set positions \<Longrightarrow> newPoint x y = (newPointUnsafe x y, True)"
  by (auto simp: newPoint_def newPointUnsafe_def set_positions)

lemma ProposeBoards_ok:
  assumes "closed_pieces b" "\<And>r. closed_pieces r \<Longrightarrow> \<exists>v. h r = Inr v"
  shows "\<exists>proposed. ProposeBoards h b = Inr proposed"
  unfolding ProposeBoards_def
proof (rule forE_total)
  fix a :: "int \<times> int" and result :: MinimalBoardSet
  assume a: "a \<in> set positions"
  obtain x y where e: "a = (x, y)" by (cases a)
  have xy: "(x, y) \<in> set positions" using a e by simp
  obtain coverages where cv: "getAllCoverage b (newPointUnsafe x y) = Inr coverages"
    "\<forall>(pc, cov) \<in> set coverages. known_piece pc"
    using getAllCoverage_ok by blast
  have inner: "\<exists>res'. forE coverages result
                        (\<lambda>(pc, coverage) result.
                           if coversNew b coverage
                           then (case settleSupportGraph
                                        (setPiece (Board_copy b) (newPointUnsafe x y) pc) of
                                   Inl err \<Rightarrow> Inl (wrap err)
                                 | Inr newBoard \<Rightarrow>
                                     (case reduce newBoard of
                                        Inl err \<Rightarrow> Inl (wrap err)
                                      | Inr reducedBoards \<Rightarrow>
                                          forE reducedBoards result
                                            (\<lambda>reducedBoard result.
                                               case getMinimalBoard h reducedBoard of
                                                 Inl err \<Rightarrow> Inl (wrap err)
                                               | Inr minimalBoard \<Rightarrow>
                                                   Inr (Put result minimalBoard))))
                           else Inr result) = Inr res'"
  proof (rule forE_total)
    fix pcc :: "Piece \<times> pointSet" and res :: MinimalBoardSet
    assume pcc: "pcc \<in> set coverages"
    obtain pc cov where pe: "pcc = (pc, cov)" by (cases pcc)
    have k: "known_piece pc" using cv(2) pcc pe by auto
    let ?d = "setPiece (Board_copy b) (newPointUnsafe x y) pc"
    obtain nb where nb: "settleSupportGraph ?d = Inr nb"
      using settle_ok[OF setPiece_closed[OF assms(1) xy k]] by blast
    have cnb: "closed_pieces nb"
      using settle_Inr_closed(2)[OF setPiece_closed(1)[OF assms(1) xy k] nb] .
    obtain rs where rs: "reduce nb = Inr rs" using reduce_total[OF cnb] by blast
    have "\<exists>res'. forE rs res (\<lambda>reducedBoard result.
                                               case getMinimalBoard h reducedBoard of
                                                 Inl err \<Rightarrow> Inl (wrap err)
                                               | Inr minimalBoard \<Rightarrow>
                                                   Inr (Put result minimalBoard)) = Inr res'"
    proof (rule forE_total)
      fix r :: Board and res2 :: MinimalBoardSet
      assume "r \<in> set rs"
      then have cr: "closed_pieces r" using reduce_results_closed[OF cnb rs] by blast
      obtain m where "getMinimalBoard h r = Inr m"
        using getMinimalBoard_ok[of r h, OF cr assms(2)[OF cr]] by blast
      then show "\<exists>s'. (case getMinimalBoard h r of
                                                 Inl err \<Rightarrow> Inl (wrap err)
                                               | Inr minimalBoard \<Rightarrow>
                                                   Inr (Put res2 minimalBoard)) = Inr s'"
        by simp
    qed
    then show "\<exists>s'. (case pcc of (pc, coverage) \<Rightarrow> \<lambda>result.
                           if coversNew b coverage
                           then (case settleSupportGraph
                                        (setPiece (Board_copy b) (newPointUnsafe x y) pc) of
                                   Inl err \<Rightarrow> Inl (wrap err)
                                 | Inr newBoard \<Rightarrow>
                                     (case reduce newBoard of
                                        Inl err \<Rightarrow> Inl (wrap err)
                                      | Inr reducedBoards \<Rightarrow>
                                          forE reducedBoards result
                                            (\<lambda>reducedBoard result.
                                               case getMinimalBoard h reducedBoard of
                                                 Inl err \<Rightarrow> Inl (wrap err)
                                               | Inr minimalBoard \<Rightarrow>
                                                   Inr (Put result minimalBoard))))
                           else Inr result) res = Inr s'"
      by (simp add: pe nb rs)
  qed
  show "\<exists>s'. (case a of (x, y) \<Rightarrow> \<lambda>result.
          if piece (cellAt b x y) \<noteq> NONE then Inr result
          else (case newPoint x y of (currCellPoint, _) \<Rightarrow>
                 (case getAllCoverage b currCellPoint of
                    Inl err \<Rightarrow> Inl (wrap err)
                  | Inr coverages \<Rightarrow>
                      forE coverages result
                        (\<lambda>(pc, coverage) result.
                           if coversNew b coverage
                           then (case settleSupportGraph
                                        (setPiece (Board_copy b) currCellPoint pc) of
                                   Inl err \<Rightarrow> Inl (wrap err)
                                 | Inr newBoard \<Rightarrow>
                                     (case reduce newBoard of
                                        Inl err \<Rightarrow> Inl (wrap err)
                                      | Inr reducedBoards \<Rightarrow>
                                          forE reducedBoards result
                                            (\<lambda>reducedBoard result.
                                               case getMinimalBoard h reducedBoard of
                                                 Inl err \<Rightarrow> Inl (wrap err)
                                               | Inr minimalBoard \<Rightarrow>
                                                   Inr (Put result minimalBoard))))
                           else Inr result)))) result = Inr s'"
    using inner by (simp add: e newPoint_positions[OF xy] cv(1))
qed

section \<open>The outstanding-work counter\<close>

lemma send_loop_no_cancel: "snd (send_loop best None i ps sent) = None"
  by (induction ps arbitrary: i sent) auto

lemma zero_occupancy_closed:
  "\<forall>(x, y) \<in> set positions. board zeroMinimalBoard ! nat (x * 8 + y) = NONE
             \<or> known_piece (board zeroMinimalBoard ! nat (x * 8 + y))"
  by (auto simp: zeroMinimalBoard_def set_positions)

text \<open>On a compact state of the closed piece set, a job that is not cancelled takes the
  counter down by two.\<close>

lemma worker_job_counts_twice:
  assumes "\<forall>(x, y) \<in> set positions. board m ! nat (x * 8 + y) = NONE
             \<or> known_piece (board m ! nat (x * 8 + y))"
  shows "\<exists>sent. worker_job rnd best None jobs m = (jobs - 2, sent, None)"
proof -
  from RebuildBoard_ok[OF assms] obtain bd where bd: "RebuildBoard m = Inr bd" ..
  have w: "wf_board bd"
    using RebuildBoard_cells(1)[OF bd, of 0 0] by (simp add: set_positions)
  have "closed_pieces bd"
    using RebuildBoard_cells(2)[OF bd] assms by (auto simp: closed_pieces_iff)
  from ProposeBoards_ok[OF this, of "heuristic rnd"] heuristic_ok
  obtain proposed where p: "ProposeBoards (heuristic rnd) bd = Inr proposed" by blast
  obtain sent e where s: "send_loop best None 0 proposed [] = (sent, e)"
    by (cases "send_loop best None 0 proposed []")
  then have "e = None" using send_loop_no_cancel[of best 0 proposed "[]"] by simp
  then show ?thesis
    using bd p s by (simp add: worker_job_def)
qed

definition seed_dispatched :: state where
  "seed_dispatched = initial_state\<lparr>edgeSet := [], workQueue := [zeroMinimalBoard],
     outstandingJobs := 1, processed := 1\<rparr>"

lemma first_pass:
  "orchestrator_pass 8 False initial_state = Inr (seed_dispatched, False)"
  by code_simp

text \<open>
  Claim C5 fails on the code. A job that ends without an error runs
  \<^verbatim>\<open>outstandingJobs.Add(-1)\<close> twice: once as its last statement before \<^verbatim>\<open>return nil\<close>, and
  once more through the \<^verbatim>\<open>defer\<close> at its head. The orchestrator adds one per board it
  dispatches. From the program's own start, with a work queue of capacity 8 and exact
  arithmetic for the heuristic: the orchestrator dispatches the empty seed board (counter
  1), a worker takes it, and its job ends normally. In the state reached the work queue is
  empty, no board is being expanded, and the counter is \<open>-1\<close>.
\<close>

theorem outstandingJobs_negative_after_first_job:
  "\<exists>s. reachable (\<lambda>r. r) 8 s \<and> outstandingJobs s = - 1 \<and> workQueue s = [] \<and> expanding s = []"
proof -
  let ?s2 = "seed_dispatched\<lparr>workQueue := [], expanding := [zeroMinimalBoard]\<rparr>"
  have r1: "reachable (\<lambda>r. r) 8 seed_dispatched"
    using reach_pass[OF reach_start first_pass] .
  have "worker_take seed_dispatched = Some ?s2"
    by (simp add: worker_take_def seed_dispatched_def initial_state_def)
  then have r2: "reachable (\<lambda>r. r) 8 ?s2"
    using reach_take[OF r1] by simp
  obtain sent where j: "worker_job (\<lambda>r. r) (\<lambda>n. currBestScore ?s2) None (outstandingJobs ?s2)
      zeroMinimalBoard = (outstandingJobs ?s2 - 2, sent, None)"
    using worker_job_counts_twice[OF zero_occupancy_closed] by blast
  let ?s3 = "?s2\<lparr>expanding := [], outstandingJobs := outstandingJobs ?s2 - 2,
      newBoardQueue := newBoardQueue ?s2 @ sent\<rparr>"
  have "worker_finish (\<lambda>r. r) None 0 ?s2 = Some ?s3"
    using j by (simp add: worker_finish_def)
  then have r3: "reachable (\<lambda>r. r) 8 ?s3"
    using reach_finish[OF r2] by simp
  have "outstandingJobs ?s3 = - 1 \<and> workQueue ?s3 = [] \<and> expanding ?s3 = []"
    by (simp add: seed_dispatched_def initial_state_def)
  with r3 show ?thesis by blast
qed

section \<open>Pruning the frontier\<close>


lemma prune_loop_all_over:
  assumes "\<forall>e \<in> set es. Score e > best" "tailIndex = int (length es) - 1"
  shows "prune_loop best es tailIndex = Inl (Panicked (IndexOutOfRange (- 1) 0))"
  using assms
proof (induction es arbitrary: tailIndex rule: rev_induct)
  case Nil
  then show ?case by (simp add: prune_loop.simps)
next
  case (snoc e es)
  have "prune_loop best (es @ [e]) tailIndex = prune_loop best es (tailIndex - 1)"
    using snoc.prems by (subst prune_loop.simps) (simp add: nth_append)
  then show ?case using snoc.IH[of "tailIndex - 1"] snoc.prems by simp
qed


section \<open>The order of dispatch\<close>

subsection \<open>The sort\<close>

lemma set_insert_by: "set (insert_by lessFn a cs) = insert a (set cs)"
  by (induction cs) auto

lemma mset_insert_by: "mset (insert_by lessFn a cs) = add_mset a (mset cs)"
  by (induction cs) auto

lemma mset_sort_Slice: "mset (sort_Slice lessFn as) = mset as"
  by (induction as) (auto simp: sort_Slice_def mset_insert_by)

lemma set_sort_Slice: "set (sort_Slice lessFn as) = set as"
  using mset_sort_Slice[of lessFn as] by (metis set_mset_mset)

text \<open>
  The comparison orders the elements it is used on: it is asymmetric, and when it puts
  \<open>a\<close> below \<open>c\<close> it puts any third element above \<open>a\<close> or below \<open>c\<close>.
\<close>

definition orders :: "('a \<Rightarrow> 'a \<Rightarrow> bool) \<Rightarrow> 'a set \<Rightarrow> bool" where
  "orders lessFn A =
     ((\<forall>a \<in> A. \<forall>c \<in> A. lessFn a c \<longrightarrow> \<not> lessFn c a) \<and>
      (\<forall>a \<in> A. \<forall>b \<in> A. \<forall>c \<in> A. lessFn a c \<longrightarrow> lessFn a b \<or> lessFn b c))"

lemma sorted_insert_by:
  assumes "orders lessFn (insert a (set cs))" "sorted_wrt (\<lambda>x y. \<not> lessFn y x) cs"
  shows "sorted_wrt (\<lambda>x y. \<not> lessFn y x) (insert_by lessFn a cs)"
  using assms
proof (induction cs)
  case Nil
  then show ?case by simp
next
  case (Cons c cs)
  have o: "orders lessFn (insert a (set cs))"
    using Cons.prems(1) by (auto simp: orders_def)
  show ?case
  proof (cases "lessFn c a")
    case True
    have "\<not> lessFn a c" using True Cons.prems(1) by (auto simp: orders_def)
    moreover have "\<forall>y \<in> set cs. \<not> lessFn y c" using Cons.prems(2) by simp
    ultimately show ?thesis
      using True Cons.IH[OF o] Cons.prems(2) by (auto simp: set_insert_by)
  next
    case False
    have "\<not> lessFn y a" if "y \<in> set cs" for y
    proof
      assume "lessFn y a"
      then have "lessFn y c \<or> lessFn c a"
        using Cons.prems(1) that unfolding orders_def
        by (metis insertCI list.set_intros(1) list.set_intros(2))
      then show False using False Cons.prems(2) that by auto
    qed
    then show ?thesis using False Cons.prems(2) by auto
  qed
qed

lemma sorted_sort_Slice:
  "orders lessFn (set as) \<Longrightarrow> sorted_wrt (\<lambda>x y. \<not> lessFn y x) (sort_Slice lessFn as)"
proof (induction as)
  case Nil
  then show ?case by (simp add: sort_Slice_def)
next
  case (Cons a as)
  have o: "orders lessFn (set as)" using Cons.prems by (auto simp: orders_def)
  have "orders lessFn (insert a (set (sort_Slice lessFn as)))"
    using Cons.prems by (simp add: set_sort_Slice)
  from sorted_insert_by[OF this Cons.IH[OF o]] show ?case
    by (simp add: sort_Slice_def)
qed

lemma f32_less_orders:
  assumes "\<forall>e \<in> A. Heuristic e \<noteq> F32_NaN"
  shows "orders (\<lambda>a c. f32_less (Heuristic a) (Heuristic c)) A"
proof -
  have asym: "f32_less u v \<Longrightarrow> \<not> f32_less v u" for u v
    by (cases u; cases v) auto
  have neg: "f32_less u w \<Longrightarrow> v \<noteq> F32_NaN \<Longrightarrow> f32_less u v \<or> f32_less v w" for u v w
    by (cases u; cases v; cases w) auto
  show ?thesis
    unfolding orders_def using asym neg assms by blast
qed

subsection \<open>The prune loop, when it does not panic\<close>

lemma prune_loop_Inr:
  assumes "prune_loop best es tailIndex = Inr (es', ti)" "tailIndex = int (length es) - 1"
  shows "es' \<noteq> [] \<and> ti = int (length es') - 1 \<and> Score (last es') \<le> best
       \<and> (\<exists>pruned. es = es' @ pruned \<and> (\<forall>p \<in> set pruned. Score p > best))"
  using assms
proof (induction es arbitrary: tailIndex rule: rev_induct)
  case Nil
  then show ?case by (simp add: prune_loop.simps)
next
  case (snoc e es)
  show ?case
  proof (cases "Score e > best")
    case True
    have "prune_loop best (es @ [e]) tailIndex = prune_loop best es (tailIndex - 1)"
      using snoc.prems(2) True by (subst prune_loop.simps) (simp add: nth_append)
    then have "prune_loop best es (tailIndex - 1) = Inr (es', ti)"
      using snoc.prems(1) by simp
    from snoc.IH[OF this] snoc.prems(2) obtain pruned where
      "es' \<noteq> []" "ti = int (length es') - 1" "Score (last es') \<le> best"
      "es = es' @ pruned" "\<forall>p \<in> set pruned. Score p > best"
      by auto
    then show ?thesis
      using True by (intro conjI exI[of _ "pruned @ [e]"]) auto
  next
    case False
    have "prune_loop best (es @ [e]) tailIndex = Inr (es @ [e], tailIndex)"
      using snoc.prems(2) False by (subst prune_loop.simps) (simp add: nth_append)
    then have "es' = es @ [e]" "ti = tailIndex" using snoc.prems(1) by simp_all
    then show ?thesis
      using False snoc.prems(2) by (intro conjI exI[of _ "[]"]) auto
  qed
qed

lemma dispatch_sent:
  assumes "dispatch W ready s = Inr s'" "workQueue s' \<noteq> workQueue s"
  shows "\<exists>t pruned. workQueue s' = workQueue s @ [t]
           \<and> edgeSet s = edgeSet s' @ [t] @ pruned
           \<and> Score t \<le> currBestScore s
           \<and> (\<forall>p \<in> set pruned. Score p > currBestScore s)"
proof -
  have ne: "length (edgeSet s) > 0"
    using assms by (auto simp: dispatch_def split: if_splits)
  with assms(1) obtain es ti where
    p: "prune_loop (currBestScore s) (edgeSet s) (int (length (edgeSet s)) - 1) = Inr (es, ti)"
    by (auto simp: dispatch_def split: sum.splits)
  from prune_loop_Inr[OF p refl] obtain pruned where
    es: "es \<noteq> []" "ti = int (length es) - 1" "Score (last es) \<le> currBestScore s"
      "edgeSet s = es @ pruned" "\<forall>p \<in> set pruned. Score p > currBestScore s"
    by auto
  have "nat ti = length es - 1" using es(2) by simp
  then have nth: "es ! nat ti = last es" "take (nat ti) es = butlast es"
    using es(1) by (simp_all add: last_conv_nth butlast_conv_take)
  have s': "workQueue s' = workQueue s @ [last es]" "edgeSet s' = butlast es"
    using assms ne p es(1) nth by (auto simp: dispatch_def split: if_splits)
  have "es = butlast es @ [last es]" using es(1) by simp
  then have "edgeSet s = edgeSet s' @ [last es] @ pruned"
    using es(4) s'(2) by simp
  then show ?thesis using s'(1) es(3,5) by blast
qed

text \<open>
  When the bound has changed (\<^verbatim>\<open>scoreIsDirty\<close>), the whole edge set is sorted.
\<close>

lemma resort_dirty:
  "edgeSet (resort W n (s\<lparr>scoreIsDirty := True\<rparr>))
     = sort_Slice (\<lambda>a c. f32_less (Heuristic a) (Heuristic c)) (edgeSet s)"
  "workQueue (resort W n (s\<lparr>scoreIsDirty := True\<rparr>)) = workQueue s"
  "currBestScore (resort W n (s\<lparr>scoreIsDirty := True\<rparr>)) = currBestScore s"
  by (simp_all add: resort_def Let_def)

text \<open>
  Two boards under the bound, one with heuristic 2 and one with heuristic 1.
\<close>

definition low_board :: MinimalBoard where
  "low_board = zeroMinimalBoard\<lparr>Heuristic := F32 1, Score := 5\<rparr>"

definition high_board :: MinimalBoard where
  "high_board = zeroMinimalBoard\<lparr>Heuristic := F32 2, Score := 3\<rparr>"

definition two_board_state :: state where
  "two_board_state = initial_state\<lparr>edgeSet := [high_board, low_board]\<rparr>"

text \<open>
  Claim C7 fails as stated: the sort is ascending and the dispatcher takes the last
  element, so the board sent is the one with the highest heuristic. From an edge set
  holding a board of heuristic 2 and a board of heuristic 1, after the sort, the board of
  heuristic 2 goes to the work queue and the board of heuristic 1 stays behind.
\<close>

theorem dispatch_lowest_heuristic_counterexample:
  "map_sum id (\<lambda>s. (map Heuristic (workQueue s), map Heuristic (edgeSet s)))
     (dispatch 8 False (resort 8 0 (two_board_state\<lparr>scoreIsDirty := True\<rparr>)))
     = Inr ([F32 2], [F32 1])
   \<and> f32_less (F32 1) (F32 2)"
  by code_simp

text \<open>
  Claim C7, amended. After a sort of the whole edge set (the bound has changed), with no
  heuristic a NaN: when the dispatcher sends a board, the edge set before the pass is made
  of the edge set left, the board sent, and the boards pruned; every pruned board has a
  score over the bound, the board sent has not, and no board left in the edge set has a
  heuristic higher than the board sent. The board sent is the one with the highest
  heuristic among those not pruned. (When the bound has not changed only the last
  \<^verbatim>\<open>newBoards + workQueueSize\<close> elements are sorted.)
\<close>

theorem dispatch_takes_highest_after_full_sort:
  assumes nan: "\<forall>e \<in> set (edgeSet s). Heuristic e \<noteq> F32_NaN"
    and d: "dispatch W ready (resort W n (s\<lparr>scoreIsDirty := True\<rparr>)) = Inr s'"
    and sent: "workQueue s' \<noteq> workQueue s"
  shows "\<exists>t pruned. workQueue s' = workQueue s @ [t]
           \<and> mset (edgeSet s) = mset (edgeSet s' @ [t] @ pruned)
           \<and> (\<forall>p \<in> set pruned. Score p > currBestScore s)
           \<and> Score t \<le> currBestScore s
           \<and> (\<forall>e \<in> set (edgeSet s'). \<not> f32_less (Heuristic t) (Heuristic e))"
proof -
  let ?less = "\<lambda>a c. f32_less (Heuristic a) (Heuristic c)"
  let ?r = "resort W n (s\<lparr>scoreIsDirty := True\<rparr>)"
  have srt: "sorted_wrt (\<lambda>x y. \<not> ?less y x) (edgeSet ?r)"
    unfolding resort_dirty(1) by (rule sorted_sort_Slice[OF f32_less_orders[OF nan]])
  from dispatch_sent[OF d] sent obtain t pruned where
    t: "workQueue s' = workQueue s @ [t]" "edgeSet ?r = edgeSet s' @ [t] @ pruned"
      "Score t \<le> currBestScore s" "\<forall>p \<in> set pruned. Score p > currBestScore s"
    unfolding resort_dirty(2,3) by blast
  have "mset (edgeSet s) = mset (edgeSet ?r)"
    unfolding resort_dirty(1) by (simp add: mset_sort_Slice)
  then have m: "mset (edgeSet s) = mset (edgeSet s' @ [t] @ pruned)"
    using t(2) by simp
  have "\<forall>e \<in> set (edgeSet s'). \<not> f32_less (Heuristic t) (Heuristic e)"
    using srt unfolding t(2) by (auto simp: sorted_wrt_append)
  then show ?thesis using t(1,3,4) m by blast
qed

theorem dispatch_takes_highest_after_full_sort_witness:
  "(\<exists>s'. dispatch 8 False (resort 8 0 (two_board_state\<lparr>scoreIsDirty := True\<rparr>)) = Inr s'
      \<and> workQueue s' \<noteq> workQueue two_board_state
      \<and> (\<exists>t pruned. workQueue s' = workQueue two_board_state @ [t]
           \<and> mset (edgeSet two_board_state) = mset (edgeSet s' @ [t] @ pruned)
           \<and> Score t \<le> currBestScore two_board_state
           \<and> (\<forall>e \<in> set (edgeSet s'). \<not> f32_less (Heuristic t) (Heuristic e))))"
proof -
  let ?s' = "two_board_state\<lparr>edgeSet := [low_board], workQueue := [high_board],
      outstandingJobs := 1, processed := 1\<rparr>"
  have d: "dispatch 8 False (resort 8 0 (two_board_state\<lparr>scoreIsDirty := True\<rparr>)) = Inr ?s'"
    by code_simp
  have n: "\<forall>e \<in> set (edgeSet two_board_state). Heuristic e \<noteq> F32_NaN"
    by (simp add: two_board_state_def low_board_def high_board_def)
  have w: "workQueue ?s' \<noteq> workQueue two_board_state"
    by (simp add: two_board_state_def initial_state_def)
  from dispatch_takes_highest_after_full_sort[OF n d w] d w show ?thesis
    by blast
qed

section \<open>Equality of compact states\<close>

text \<open>
  The support graph of a settled board is a function of its occupancy: two settled boards
  with the same pieces on the same cells are the same board.
\<close>

lemma settled_ext:
  assumes s1: "settled b1" and s2: "settled b2" and so: "same_occupancy b1 b2"
  shows "b1 = b2"
proof (rule board_ext)
  show "wf_board b1" "wf_board b2" using s1 s2 by (simp_all add: settled_def)
next
  have c: "coverageAt b1 u v = coverageAt b2 u v" if "(u, v) \<in> set positions" for u v
    using coverageAt_same[OF so that] .
  have p: "piece (cellAt b1 u v) = piece (cellAt b2 u v)" if "(u, v) \<in> set positions" for u v
    using so that by (auto simp: same_occupancy_def)
  have "cellAt b1 x y = cellAt b2 x y" if xy: "(x, y) \<in> set positions" for x y
  proof -
    have "supports (cellAt b1 x y) = supports (cellAt b2 x y)"
      unfolding settled_char(1)[OF s1 xy] settled_char(1)[OF s2 xy] using c[OF xy] p[OF xy]
      by simp
    moreover have "supportedBy (cellAt b1 x y) = supportedBy (cellAt b2 x y)"
      unfolding settled_char(2)[OF s1 xy] settled_char(2)[OF s2 xy] using c p
      by (intro Collect_cong) metis
    ultimately show ?thesis using p[OF xy] by simp
  qed
  then show "\<forall>(x, y) \<in> set positions. cellAt b1 x y = cellAt b2 x y" by auto
qed

lemma compact_same_occupancy:
  assumes "getMinimalBoard h b1 = Inr c1" "getMinimalBoard h' b2 = Inr c2" "board c1 = board c2"
  shows "same_occupancy b1 b2"
  using getMinimalBoard_board(1)[OF assms(1)] getMinimalBoard_board(1)[OF assms(2)] assms(3)
  by (auto simp: same_occupancy_def)

lemma insertBoard_then_Contains:
  assumes "MinimalBoard_eq c c"
  shows "Contains (seenBoards (fst (insertBoard c s))) c"
  using assms by (auto simp: insertBoard_def Put_def Contains_def)

text \<open>
  The compact state of the board with pawns on (0,0), (0,2) and (0,4), and the compact
  state of the empty board: its score and its coverage are 0, so its heuristic is the NaN
  of \<open>0 / 0\<close>.
\<close>

definition three_pawns_compact :: MinimalBoard where
  "three_pawns_compact = three_pawns\<lparr>Heuristic := F32 4, Score := 3, Coverage := 3\<rparr>"

definition empty_compact :: MinimalBoard where
  "empty_compact = zeroMinimalBoard\<lparr>Heuristic := F32_NaN\<rparr>"

text \<open>
  Claim C4 fails as stated: the set is a Go map keyed by the struct, and \<^verbatim>\<open>==\<close> on the
  struct compares all five fields, the \<^verbatim>\<open>float32\<close> among them. The empty board is settled
  and compacts to a state that is unequal to itself, so a second insertion of it is
  accepted; and the seed state, which has the same occupancy array and heuristic 0, is
  unequal to it.
\<close>

theorem compact_equality_counterexample:
  "settled newBoardArray
   \<and> getMinimalBoard (heuristic (\<lambda>r. r)) newBoardArray = Inr empty_compact
   \<and> \<not> MinimalBoard_eq empty_compact empty_compact
   \<and> snd (insertBoard empty_compact (fst (insertBoard empty_compact initial_state)))
   \<and> board zeroMinimalBoard = board empty_compact
   \<and> \<not> MinimalBoard_eq zeroMinimalBoard empty_compact"
  by code_simp

text \<open>
  Claim C4, amended. Equality of compact states compares the occupancy array and the four
  derived scalars. For two compact states made from settled boards with the same heuristic
  function, the first with a heuristic that is not NaN, the states are equal iff their
  occupancy arrays are equal; and when the arrays are equal, inserting the second after the
  first is rejected.
\<close>

theorem compact_equality_is_occupancy_equality:
  assumes "settled b1" "settled b2"
    and "getMinimalBoard h b1 = Inr c1" "getMinimalBoard h b2 = Inr c2"
    and "Heuristic c1 \<noteq> F32_NaN"
  shows "(MinimalBoard_eq c1 c2 \<longleftrightarrow> board c1 = board c2)
       \<and> (board c1 = board c2 \<longrightarrow> \<not> snd (insertBoard c2 (fst (insertBoard c1 s))))"
proof -
  have refl: "MinimalBoard_eq c1 c1"
    using assms(5) by (cases "Heuristic c1") (simp_all add: MinimalBoard_eq_def)
  have same: "c1 = c2" if "board c1 = board c2"
  proof -
    have "b1 = b2"
      using settled_ext[OF assms(1,2) compact_same_occupancy[OF assms(3,4) that]] .
    then show ?thesis using assms(3,4) by simp
  qed
  have "MinimalBoard_eq c1 c2" if "board c1 = board c2"
    using same[OF that] refl by simp
  moreover have "board c1 = board c2" if "MinimalBoard_eq c1 c2"
    using that by (simp add: MinimalBoard_eq_def)
  moreover have "\<not> snd (insertBoard c2 (fst (insertBoard c1 s)))" if "board c1 = board c2"
    using insertBoard_then_Contains[OF refl, of s] same[OF that]
    by (simp add: insertBoard_def)
  ultimately show ?thesis by blast
qed

theorem compact_equality_is_occupancy_equality_witness:
  "settled (rebuilt three_pawns)
   \<and> getMinimalBoard (heuristic (\<lambda>r. r)) (rebuilt three_pawns) = Inr three_pawns_compact
   \<and> Heuristic three_pawns_compact \<noteq> F32_NaN
   \<and> MinimalBoard_eq three_pawns_compact three_pawns_compact
   \<and> \<not> snd (insertBoard three_pawns_compact (fst (insertBoard three_pawns_compact initial_state)))"
proof -
  have g: "getMinimalBoard (heuristic (\<lambda>r. r)) (rebuilt three_pawns) = Inr three_pawns_compact"
    by code_simp
  have n: "Heuristic three_pawns_compact \<noteq> F32_NaN"
    by (simp add: three_pawns_compact_def)
  from compact_equality_is_occupancy_equality[OF settled_three_pawns settled_three_pawns g g n,
      of initial_state] settled_three_pawns g n
  show ?thesis by simp
qed

end
